theory Spec2Isabelle
  imports Main
begin

section \<open>JavaScript values, strings and thrown errors\<close>

text \<open>
  Strings are lists of code units; \<open>length\<close> is the JavaScript \<open>.length\<close>.
  A request field read from a JSON body is a \<open>jsval\<close>; \<open>JUndefined\<close> is a field
  that the body does not have.
\<close>

datatype jsval = JUndefined | JNull | JBool bool | JNum int | JStr string | JObj

text \<open>The truthiness test of \<open>if (x)\<close> and \<open>!x\<close>.\<close>

fun truthy :: "jsval \<Rightarrow> bool" where
  "truthy JUndefined = False"
| "truthy JNull = False"
| "truthy (JBool b) = b"
| "truthy (JNum n) = (n \<noteq> 0)"
| "truthy (JStr s) = (s \<noteq> [])"
| "truthy JObj = True"

text \<open>
  A thrown value: an \<open>Error\<close> object with its message, or anything else
  (\<open>error instanceof Error\<close> is false for it).
\<close>

datatype thrown = JsError string | NonError

text \<open>The white space of \<open>\s\<close> and of \<open>trim()\<close> among the code units below 256.\<close>

definition is_space :: "char \<Rightarrow> bool" where
  "is_space c = (c \<in> set [CHR 0x09, CHR 0x0A, CHR 0x0B, CHR 0x0C, CHR 0x0D, CHR 0x20, CHR 0xA0])"

definition trim :: "string \<Rightarrow> string" where
  "trim s = rev (dropWhile is_space (rev (dropWhile is_space s)))"

text \<open>\<open>s.split(/\s+/)\<close>: the pieces between maximal runs of white space.\<close>

fun split_ws_from :: "bool \<Rightarrow> string \<Rightarrow> string \<Rightarrow> string list" where
  "split_ws_from in_ws cur [] = [rev cur]"
| "split_ws_from in_ws cur (c # cs) =
     (if is_space c then
        (if in_ws then split_ws_from True [] cs else rev cur # split_ws_from True [] cs)
      else split_ws_from False (c # cur) cs)"

definition split_ws :: "string \<Rightarrow> string list" where
  "split_ws s = split_ws_from False [] s"

text \<open>\<open>xs.join(sep)\<close>.\<close>

fun join :: "string \<Rightarrow> string list \<Rightarrow> string" where
  "join sep [] = []"
| "join sep [x] = x"
| "join sep (x # y # ys) = x @ sep @ join sep (y # ys)"

text \<open>Decimal rendering of a number inside a template string.\<close>

fun decimal_digits :: "nat \<Rightarrow> string \<Rightarrow> string" where
  "decimal_digits n acc =
     (if n < 10 then (''0123456789'' ! n) # acc
      else decimal_digits (n div 10) ((''0123456789'' ! (n mod 10)) # acc))"

definition show_nat :: "nat \<Rightarrow> string" where
  "show_nat n = decimal_digits n []"

definition show_int :: "int \<Rightarrow> string" where
  "show_int i = (if 0 \<le> i then show_nat (nat i) else CHR ''-'' # show_nat (nat (- i)))"

definition starts_with :: "string \<Rightarrow> string \<Rightarrow> bool" where
  "starts_with s p = (take (length p) s = p)"

definition ends_with :: "string \<Rightarrow> string \<Rightarrow> bool" where
  "ends_with s p = (length p \<le> length s \<and> drop (length s - length p) s = p)"

text \<open>\<open>s.includes(p)\<close>: \<open>p\<close> occurs in \<open>s\<close> as a substring.\<close>

fun str_includes :: "string \<Rightarrow> string \<Rightarrow> bool" where
  "str_includes [] p = (p = [])"
| "str_includes (c # cs) p = (starts_with (c # cs) p \<or> str_includes cs p)"

section \<open>The run-command endpoint\<close>

text \<open>
  \<open>runCommand\<close> of the active sandbox either rejects or resolves to a result whose
  \<open>stdout()\<close> and \<open>stderr()\<close> again either reject or resolve to text.
\<close>

record command_result =
  res_stdout :: "thrown + string"
  res_stderr :: "thrown + string"
  res_exitCode :: int

type_synonym sandbox = "string \<Rightarrow> string list \<Rightarrow> thrown + command_result"

text \<open>
  What \<open>const { command } = await request.json()\<close> gives: it throws (the body is not
  JSON, or is not an object), or binds \<open>command\<close>.
\<close>

datatype run_request = Unreadable thrown | Body jsval

record run_response =
  rc_status :: nat
  rc_success :: bool
  rc_error :: "string option"
  rc_output :: "string option"
  rc_exitCode :: "int option"
  rc_message :: "string option"

definition failure :: "nat \<Rightarrow> string \<Rightarrow> run_response" where
  "failure st msg =
     \<lparr>rc_status = st, rc_success = False, rc_error = Some msg, rc_output = None,
      rc_exitCode = None, rc_message = None\<rparr>"

text \<open>The handler's \<open>catch\<close>: status 500 with the error's message.\<close>

definition caught :: "thrown \<Rightarrow> run_response" where
  "caught e = failure 500 (case e of JsError m \<Rightarrow> m | NonError \<Rightarrow> ''Internal Server Error'')"

definition format_output :: "string \<Rightarrow> string \<Rightarrow> int \<Rightarrow> string" where
  "format_output out err code =
     join [CHR 0x0A]
       (filter (\<lambda>s. s \<noteq> [])
          [if trim out \<noteq> [] then out else [],
           if trim err \<noteq> [] then ''ERROR:'' @ [CHR 0x0A] @ err else [],
           [CHR 0x0A] @ ''Process finished with exit code: '' @ show_int code])"

text \<open>
  \<open>const [cmd, ...args] = command.trim().split(/\s+/)\<close>: the split of a string is
  never empty, \<open>cmd\<close> is its first piece and \<open>args\<close> the others. A command that
  is truthy but not a string has no \<open>trim\<close>, the call throws.
\<close>

definition run_command_POST :: "sandbox option \<Rightarrow> run_request \<Rightarrow> run_response" where
  "run_command_POST activeSandbox req =
     (case req of
        Unreadable e \<Rightarrow> caught e
      | Body command \<Rightarrow>
          if \<not> truthy command then failure 400 ''Command is required''
          else (case activeSandbox of
            None \<Rightarrow> failure 400
              ''No active sandbox session found. Please refresh or restart the preview.''
          | Some sb \<Rightarrow>
              (case command of
                 JStr s \<Rightarrow>
                   (case sb (hd (split_ws (trim s))) (tl (split_ws (trim s))) of
                      Inl e \<Rightarrow> caught e
                    | Inr r \<Rightarrow>
                        (case res_stdout r of
                           Inl e \<Rightarrow> caught e
                         | Inr out \<Rightarrow>
                             (case res_stderr r of
                                Inl e \<Rightarrow> caught e
                              | Inr err \<Rightarrow>
                                  \<lparr>rc_status = 200, rc_success = True, rc_error = None,
                                   rc_output = Some (format_output out err (res_exitCode r)),
                                   rc_exitCode = Some (res_exitCode r),
                                   rc_message = Some (if res_exitCode r = 0 then ''Success''
                                                      else ''Command failed'')\<rparr>)))
               | _ \<Rightarrow> caught (JsError ''command.trim is not a function''))))"


section \<open>Provider selection of the generation endpoint\<close>

text \<open>
  \<open>initializeProviders\<close> reads two API keys from the environment; a provider whose key
  is set gets a client, the other is \<open>null\<close>. Only whether a client is there matters.
\<close>

record provider_env =
  hasGeminiKey :: bool
  hasGroqKey :: bool

record providers =
  google :: bool
  groq :: bool

definition initializeProviders :: "provider_env \<Rightarrow> thrown + providers" where
  "initializeProviders env =
     (if \<not> hasGeminiKey env \<and> \<not> hasGroqKey env
      then Inl (JsError
        ''At least one AI provider (Gemini or Groq) must be configured with valid API keys'')
      else Inr \<lparr>google = hasGeminiKey env, groq = hasGroqKey env\<rparr>)"

text \<open>
  Property names that every object literal inherits from \<open>Object.prototype\<close>: the
  \<open>in\<close> operator and a property read find them too.
\<close>

definition object_prototype_keys :: "string list" where
  "object_prototype_keys =
     [''constructor'', ''toString'', ''toLocaleString'', ''valueOf'', ''hasOwnProperty'',
      ''isPrototypeOf'', ''propertyIsEnumerable'', ''__proto__'', ''__defineGetter__'',
      ''__defineSetter__'', ''__lookupGetter__'', ''__lookupSetter__'']"

text \<open>
  Truthiness of \<open>providers[key]\<close>; the key \<open>None\<close> is \<open>undefined\<close>, which reads the
  property \<open>"undefined"\<close>.
\<close>

definition provider_available :: "providers \<Rightarrow> string option \<Rightarrow> bool" where
  "provider_available ps key =
     (case key of
        None \<Rightarrow> False
      | Some k \<Rightarrow>
          if k = ''google'' then google ps
          else if k = ''groq'' then groq ps
          else k \<in> set object_prototype_keys)"

text \<open>\<open>MODEL_CONFIG\<close>: model key, provider, provider's model name, \<open>maxTokens\<close>.\<close>

definition MODEL_CONFIG :: "(string \<times> string \<times> string \<times> nat) list" where
  "MODEL_CONFIG =
     [(''gemini-2.0-flash-exp'', ''google'', ''gemini-2.0-flash-exp'', 8192),
      (''gemini-1.5-pro'', ''google'', ''gemini-1.5-pro-002'', 8192),
      (''gemini-1.5-flash'', ''google'', ''gemini-1.5-flash-002'', 8192),
      (''llama-3.3-70b'', ''groq'', ''llama-3.3-70b-versatile'', 8192),
      (''llama-3.1-70b'', ''groq'', ''llama-3.1-70b-versatile'', 8192),
      (''mixtral-8x7b'', ''groq'', ''mixtral-8x7b-32768'', 8192)]"

text \<open>\<open>model in MODEL_CONFIG\<close>.\<close>

definition in_MODEL_CONFIG :: "string \<Rightarrow> bool" where
  "in_MODEL_CONFIG m = (map_of MODEL_CONFIG m \<noteq> None \<or> m \<in> set object_prototype_keys)"

text \<open>
  \<open>MODEL_CONFIG[model].provider\<close> and \<open>MODEL_CONFIG[model].model\<close>; an inherited
  property has neither field, the read gives \<open>undefined\<close>.
\<close>

definition config_provider :: "string \<Rightarrow> string option" where
  "config_provider m = map_option fst (map_of MODEL_CONFIG m)"

definition config_model :: "string \<Rightarrow> string option" where
  "config_model m = map_option (fst \<circ> snd) (map_of MODEL_CONFIG m)"

record gen_request =
  gen_prompt :: jsval
  gen_model :: "string option"
  gen_provider :: "string option"

text \<open>
  What the handler has done when the selection code is over: it has answered with a
  JSON body and a status (no stream was opened), or it goes on to open the stream with
  \<open>selectedProvider\<close> and \<open>selectedModel\<close>.
\<close>

datatype selection = Responded nat string | Proceeds "string option" "string option"

definition valid_prompt :: "jsval \<Rightarrow> bool" where
  "valid_prompt v = (case v of JStr s \<Rightarrow> s \<noteq> [] \<and> trim s \<noteq> [] | _ \<Rightarrow> False)"

text \<open>The last step: \<open>// Get final model string\<close>.\<close>

definition final_model :: "string \<Rightarrow> string option \<Rightarrow> string option" where
  "final_model m selectedModel =
     (let unset = (selectedModel = None \<or> selectedModel = Some []) in
      if unset \<and> in_MODEL_CONFIG m then config_model m
      else if unset then Some m
      else selectedModel)"

text \<open>\<open>selectedProvider === 'google' ? 'groq' : 'google'\<close>.\<close>

definition other_provider :: "string option \<Rightarrow> string" where
  "other_provider selectedProvider = (if selectedProvider = Some ''google'' then ''groq'' else ''google'')"

text \<open>\<open>// Verify selected provider is available\<close>, with the fallback.\<close>

definition verify_provider ::
  "providers \<Rightarrow> string \<Rightarrow> string option \<Rightarrow> string option \<Rightarrow> selection" where
  "verify_provider ps m selectedProvider selectedModel =
     (if \<not> provider_available ps selectedProvider then
        (let fallbackProvider = other_provider selectedProvider in
         if provider_available ps (Some fallbackProvider)
         then Proceeds (Some fallbackProvider) (final_model m selectedModel)
         else Responded 500
           (''Selected provider '' @ [CHR 0x27] @
            (case selectedProvider of None \<Rightarrow> ''undefined'' | Some k \<Rightarrow> k) @
            [CHR 0x27] @ '' is not configured''))
      else Proceeds selectedProvider (final_model m selectedModel))"

text \<open>
  The part of the generation \<open>POST\<close> that runs before the stream is created;
  \<open>model\<close> defaults to \<open>gemini-2.0-flash-exp\<close>.
\<close>

definition requested_model :: "gen_request \<Rightarrow> string" where
  "requested_model req = (case gen_model req of None \<Rightarrow> ''gemini-2.0-flash-exp'' | Some k \<Rightarrow> k)"

definition generate_POST_select :: "provider_env \<Rightarrow> gen_request \<Rightarrow> selection" where
  "generate_POST_select env req =
     (let m = requested_model req in
      if \<not> valid_prompt (gen_prompt req) then Responded 400 ''Valid prompt is required''
      else (case initializeProviders env of
        Inl e \<Rightarrow> Responded 500
          (case e of JsError msg \<Rightarrow> msg | NonError \<Rightarrow> ''Failed to initialize AI providers'')
      | Inr ps \<Rightarrow>
          (case gen_provider req of
             Some (c # cs) \<Rightarrow>
               if \<not> provider_available ps (Some (c # cs)) then
                 Responded 400 (''Provider '' @ [CHR 0x27] @ (c # cs) @ [CHR 0x27] @
                   '' is not configured. Please set the appropriate API key.'')
               else verify_provider ps m (Some (c # cs)) None
           | _ \<Rightarrow>
               if in_MODEL_CONFIG m then verify_provider ps m (config_provider m) (config_model m)
               else verify_provider ps m (Some (if google ps then ''google'' else ''groq''))
                      (Some m))))"

section \<open>Paths: the POSIX functions of Node's \<open>path\<close> module\<close>

text \<open>
  The apply route calls \<open>path.normalize\<close>, \<open>path.isAbsolute\<close>, \<open>path.resolve\<close>,
  \<open>path.basename\<close>, \<open>path.dirname\<close> and \<open>path.extname\<close>. They are modelled for a
  POSIX host (\<open>path.sep\<close> is the slash), following the algorithms of Node's
  \<open>path.posix\<close>.
\<close>

text \<open>\<open>s.split('/')\<close>.\<close>

fun split_slash_from :: "string \<Rightarrow> string \<Rightarrow> string list" where
  "split_slash_from cur [] = [rev cur]"
| "split_slash_from cur (c # cs) =
     (if c = CHR ''/'' then rev cur # split_slash_from [] cs
      else split_slash_from (c # cur) cs)"

definition split_slash :: "string \<Rightarrow> string list" where
  "split_slash s = split_slash_from [] s"

text \<open>
  \<open>normalizeString\<close>, on the segments: empty segments and \<open>.\<close> are dropped, \<open>..\<close>
  removes the segment before it; where there is none to remove (or it is itself \<open>..\<close>)
  the \<open>..\<close> is kept when going above the start is allowed. \<open>acc\<close> is the result so
  far, last segment first.
\<close>

fun normalize_segs :: "bool \<Rightarrow> string list \<Rightarrow> string list \<Rightarrow> string list" where
  "normalize_segs allow acc [] = rev acc"
| "normalize_segs allow acc (s # ss) =
     (if s = [] \<or> s = ''.'' then normalize_segs allow acc ss
      else if s = ''..'' then
        (case acc of
           [] \<Rightarrow> normalize_segs allow (if allow then [''..''] else []) ss
         | t # ts \<Rightarrow>
             if t = ''..'' then normalize_segs allow (if allow then ''..'' # acc else acc) ss
             else normalize_segs allow ts ss)
      else normalize_segs allow (s # acc) ss)"

definition normalizeString :: "string \<Rightarrow> bool \<Rightarrow> string" where
  "normalizeString p allowAboveRoot = join ''/'' (normalize_segs allowAboveRoot [] (split_slash p))"

definition isAbsolute :: "string \<Rightarrow> bool" where
  "isAbsolute p = (p \<noteq> [] \<and> hd p = CHR ''/'')"

definition path_normalize :: "string \<Rightarrow> string" where
  "path_normalize p =
     (if p = [] then ''.''
      else
        let trailingSeparator = (last p = CHR ''/'');
            res = normalizeString p (\<not> isAbsolute p)
        in if res = [] then (if isAbsolute p then ''/'' else if trailingSeparator then ''./'' else ''.'')
           else (if isAbsolute p then ''/'' else []) @ res @ (if trailingSeparator then ''/'' else []))"

text \<open>
  \<open>path.resolve(root, p)\<close> for an absolute \<open>root\<close> (it is \<open>process.cwd()\<close>): the
  arguments are taken from the right until one is absolute, empty ones skipped.
\<close>

definition resolve :: "string \<Rightarrow> string \<Rightarrow> string" where
  "resolve root p =
     (let resolvedPath =
            (if p = [] then root @ ''/''
             else if isAbsolute p then p @ ''/''
             else root @ ''/'' @ p @ ''/'')
      in ''/'' @ normalizeString resolvedPath False)"

definition basename :: "string \<Rightarrow> string" where
  "basename p = rev (takeWhile (\<lambda>c. c \<noteq> CHR ''/'') (dropWhile (\<lambda>c. c = CHR ''/'') (rev p)))"

definition dirname :: "string \<Rightarrow> string" where
  "dirname p =
     (if p = [] then ''.''
      else
        let r = dropWhile (\<lambda>c. c \<noteq> CHR ''/'') (dropWhile (\<lambda>c. c = CHR ''/'') (rev (tl p)))
        in if r = [] then (if isAbsolute p then ''/'' else ''.'')
           else if isAbsolute p \<and> length r = 1 then ''//''
           else take (length r) p)"

definition extname :: "string \<Rightarrow> string" where
  "extname p =
     (let base = basename p in
      if CHR ''.'' \<notin> set base then []
      else if dropWhile (\<lambda>c. c \<noteq> CHR ''.'') (rev base) = ''.'' then []
      else if base = ''..'' then []
      else ''.'' @ rev (takeWhile (\<lambda>c. c \<noteq> CHR ''.'') (rev base)))"

section \<open>The apply route: security configuration and path policy\<close>

definition protectedFiles :: "string list" where
  "protectedFiles =
     [''.env'', ''.env.local'', ''.env.development'', ''.env.production'', ''.env.test'',
      ''.git'', ''.gitignore'', ''package-lock.json'', ''yarn.lock'', ''pnpm-lock.yaml'']"

definition protectedDirectories :: "string list" where
  "protectedDirectories =
     [''.git'', ''node_modules'', ''.next'', ''dist'', ''build'', ''.vercel'', ''.cache'']"

definition allowedExtensions :: "string list" where
  "allowedExtensions =
     [''.js'', ''.jsx'', ''.ts'', ''.tsx'', ''.json'', ''.html'', ''.css'', ''.scss'', ''.sass'',
      ''.md'', ''.mdx'', ''.txt'', ''.svg'', ''.png'', ''.jpg'', ''.jpeg'', ''.gif'', ''.webp'',
      ''.env.example'', ''.gitignore.example'']"

datatype path_check = Safe | Unsafe string

text \<open>\<open>isPathSafe\<close>; the project root (\<open>process.cwd()\<close>) is a parameter.\<close>

definition isPathSafe :: "string \<Rightarrow> string \<Rightarrow> path_check" where
  "isPathSafe projectRoot filePath =
     (let normalized = path_normalize filePath in
      if str_includes normalized ''..'' then Unsafe ''Path traversal detected''
      else if isAbsolute normalized then Unsafe ''Absolute paths not allowed''
      else if \<not> starts_with (resolve projectRoot normalized) projectRoot
        then Unsafe ''Path escapes project root''
      else
        let fileName = basename normalized in
        if fileName \<in> set protectedFiles then Unsafe (''Protected file: '' @ fileName)
        else (case find (\<lambda>segment. segment \<in> set protectedDirectories) (split_slash normalized) of
          Some segment \<Rightarrow> Unsafe (''Protected directory: '' @ segment)
        | None \<Rightarrow>
            let ext = extname normalized;
                hasValidExtension = list_ex (\<lambda>allowed. ends_with normalized allowed) allowedExtensions
            in if \<not> hasValidExtension \<and> ext \<noteq> []
               then Unsafe (''File extension not allowed: '' @ ext)
               else Safe))"

definition configFiles :: "string list" where
  "configFiles =
     [''package.json'', ''tsconfig.json'', ''next.config.js'', ''next.config.mjs'',
      ''tailwind.config.js'', ''tailwind.config.ts'', ''postcss.config.js'', ''README.md'']"

definition normalizeFilePath :: "string \<Rightarrow> string" where
  "normalizeFilePath filePath =
     (let normalized = dropWhile (\<lambda>c. c = CHR ''/'') filePath;
          fileName = basename normalized;
          startsWithValidDir =
            (starts_with normalized ''src/'' \<or> starts_with normalized ''public/'' \<or>
             starts_with normalized ''app/'' \<or> starts_with normalized ''pages/'' \<or>
             starts_with normalized ''components/'' \<or> starts_with normalized ''lib/'' \<or>
             starts_with normalized ''styles/'' \<or> starts_with normalized ''utils/'' \<or>
             fileName \<in> set configFiles)
      in if \<not> startsWithValidDir \<and> fileName \<notin> set configFiles
         then ''src/'' @ normalized else normalized)"

section \<open>The apply route: request schema\<close>

record file_to_apply =
  path :: string
  content :: string

text \<open>
  The issues that \<open>FileSchema\<close> raises for a path, in the order of its checks: the two
  length checks, then the three refinements. A failed check does not stop the later
  ones.
\<close>

definition strip_dot_slash :: "string \<Rightarrow> string" where
  "strip_dot_slash p = (if starts_with p ''./'' then drop 2 p else p)"

definition path_format_ok :: "string \<Rightarrow> bool" where
  "path_format_ok p =
     (let normalized = path_normalize p in
      normalized = p \<or> normalized = ''./'' @ p \<or> normalized = strip_dot_slash p)"

definition path_issues :: "string \<Rightarrow> string list" where
  "path_issues p =
     (if length p < 1 then [''File path cannot be empty''] else []) @
     (if length p > 500 then [''File path too long''] else []) @
     (if str_includes p ''..''
      then [''Path traversal detected: '' @ [CHR 0x22] @ ''..'' @ [CHR 0x22] @ '' not allowed'']
      else []) @
     (if isAbsolute p then [''Absolute paths not allowed''] else []) @
     (if \<not> path_format_ok p then [''Invalid path format''] else [])"

text \<open>
  The body of an apply request, as far as it is typed: \<open>None\<close> is a field that the
  body does not have.
\<close>

record apply_body =
  body_files :: "file_to_apply list option"
  body_generatedCode :: "string option"
  body_packages :: "string list option"

text \<open>The issues of \<open>ApplyCodeRequestSchema.parse\<close>; the parse throws when there is one.\<close>

definition schema_issues :: "file_to_apply list option \<Rightarrow> string list" where
  "schema_issues fs =
     (case fs of
        None \<Rightarrow> [''Required'']
      | Some files \<Rightarrow>
          (if length files < 1 then [''At least one file is required''] else []) @
          (if length files > 100 then [''Too many files in single request''] else []) @
          concat (map (\<lambda>f. path_issues (path f)) files))"

section \<open>Regular expressions of the two routes\<close>

text \<open>
  A global regular expression is run over a text from left to right: at each position
  the matcher \<open>m\<close> either fails or gives a value and the length of the match, and the
  search goes on behind the match. \<open>k\<close> counts the code units still covered by the
  last match.
\<close>

fun scan :: "(string \<Rightarrow> ('a \<times> nat) option) \<Rightarrow> nat \<Rightarrow> string \<Rightarrow> 'a list" where
  "scan m k [] = []"
| "scan m k (c # cs) =
     (if k > 0 then scan m (k - 1) cs
      else (case m (c # cs) of
              Some (x, len) \<Rightarrow> x # scan m (len - 1) cs
            | None \<Rightarrow> scan m 0 cs))"

text \<open>Index of the first occurrence of a pattern.\<close>

fun find_sub :: "string \<Rightarrow> string \<Rightarrow> nat option" where
  "find_sub pat [] = (if pat = [] then Some 0 else None)"
| "find_sub pat (c # cs) =
     (if starts_with (c # cs) pat then Some 0 else map_option Suc (find_sub pat cs))"

definition dq :: char where "dq = CHR 0x22"
definition sq :: char where "sq = CHR 0x27"
definition fence :: string where "fence = [CHR 0x60, CHR 0x60, CHR 0x60]"

text \<open>\<open>\w\<close>: letters, digits and the underscore.\<close>

definition is_word :: "char \<Rightarrow> bool" where
  "is_word c =
     (let n = (of_char c :: nat) in
      (48 \<le> n \<and> n \<le> 57) \<or> (65 \<le> n \<and> n \<le> 90) \<or> (97 \<le> n \<and> n \<le> 122) \<or> n = 95)"

text \<open>
  The attribute \<open>path="([^"]+)"\<close> without its closing quote: after \<open>path="\<close> the
  longest run of code units other than the quote, which must not be empty.
\<close>

definition match_path_attr :: "string \<Rightarrow> (string \<times> nat) option" where
  "match_path_attr s =
     (if \<not> starts_with s (''path='' @ [dq]) then None
      else
        let p = takeWhile (\<lambda>c. c \<noteq> dq) (drop 6 s) in
        if p = [] then None else Some (p, 6 + length p))"

text \<open>
  \<open>/<file\s+path="([^"]+)">([\s\S]*?)<\/file>/\<close> at the start of \<open>s\<close>: the two
  groups and the length of the match.
\<close>

definition match_file_tag :: "string \<Rightarrow> ((string \<times> string) \<times> nat) option" where
  "match_file_tag s =
     (if \<not> starts_with s ''<file'' then None
      else
        let ws = takeWhile is_space (drop 5 s) in
        if ws = [] then None
        else (case match_path_attr (drop (5 + length ws) s) of
          None \<Rightarrow> None
        | Some (p, n) \<Rightarrow>
            let r = drop (5 + length ws + n) s in
            if \<not> starts_with r ([dq] @ ''>'') then None
            else (case find_sub ''</file>'' (drop 2 r) of
              None \<Rightarrow> None
            | Some k \<Rightarrow> Some ((p, take k (drop 2 r)), 5 + length ws + n + 2 + k + 7))))"

text \<open>
  The generation route's \<open>/<file path="([^"]+)">([\s\S]*?)<\/file>/\<close>: one space
  before the attribute.
\<close>

definition match_file_tag_gen :: "string \<Rightarrow> ((string \<times> string) \<times> nat) option" where
  "match_file_tag_gen s =
     (if \<not> starts_with s ''<file '' then None
      else (case match_path_attr (drop 6 s) of
        None \<Rightarrow> None
      | Some (p, n) \<Rightarrow>
          let r = drop (6 + n) s in
          if \<not> starts_with r ([dq] @ ''>'') then None
          else (case find_sub ''</file>'' (drop 2 r) of
            None \<Rightarrow> None
          | Some k \<Rightarrow> Some ((p, take k (drop 2 r)), 6 + n + 2 + k + 7))))"

text \<open>The first alternative that succeeds, in the order a backtracking matcher tries them.\<close>

fun first_some :: "('a \<Rightarrow> 'b option) \<Rightarrow> 'a list \<Rightarrow> 'b option" where
  "first_some f [] = None"
| "first_some f (x # xs) = (case f x of Some y \<Rightarrow> Some y | None \<Rightarrow> first_some f xs)"

text \<open>
  The markdown expression, a fence followed by
  \<open>(?:\w+)?\s*(?:path="([^"]+)")?\n([\s\S]*?)\<close> and a closing fence. The greedy
  parts give back one code unit at a time when what follows fails, and the optional
  attribute is skipped when the match cannot be completed with it.
  \<open>md_tail\<close> is the end of the expression: the line feed, the content up to the next
  fence. \<open>n\<close> is the length matched so far.
\<close>

definition md_tail ::
  "string option \<Rightarrow> nat \<Rightarrow> string \<Rightarrow> ((string option \<times> string) \<times> nat) option" where
  "md_tail pth n s =
     (case s of
        [] \<Rightarrow> None
      | c # cs \<Rightarrow>
          if c \<noteq> CHR 0x0A then None
          else (case find_sub fence cs of
                  None \<Rightarrow> None
                | Some k \<Rightarrow> Some ((pth, take k cs), n + 1 + k + 3)))"

definition md_attr :: "nat \<Rightarrow> string \<Rightarrow> ((string option \<times> string) \<times> nat) option" where
  "md_attr n s =
     (case match_path_attr s of
        None \<Rightarrow> md_tail None n s
      | Some (p, k) \<Rightarrow>
          (case (if starts_with (drop k s) [dq]
                 then md_tail (Some p) (n + k + 1) (drop (k + 1) s) else None) of
             Some r \<Rightarrow> Some r
           | None \<Rightarrow> md_tail None n s))"

definition md_space :: "nat \<Rightarrow> string \<Rightarrow> ((string option \<times> string) \<times> nat) option" where
  "md_space n s =
     first_some (\<lambda>j. md_attr (n + j) (drop j s)) (rev [0 ..< Suc (length (takeWhile is_space s))])"

definition match_markdown :: "string \<Rightarrow> ((string option \<times> string) \<times> nat) option" where
  "match_markdown s =
     (if \<not> starts_with s fence then None
      else
        let r = drop 3 s in
        first_some (\<lambda>k. md_space (3 + k) (drop k r)) (rev [0 ..< Suc (length (takeWhile is_word r))]))"

text \<open>
  \<open>/(?:import|require)\s*\(?['"]([^'"]+)['"]\)?/\<close> at the start of \<open>s\<close>: the
  specifier and the length of the match.
\<close>

definition is_quote :: "char \<Rightarrow> bool" where
  "is_quote c = (c = sq \<or> c = dq)"

definition match_import :: "string \<Rightarrow> (string \<times> nat) option" where
  "match_import s =
     (let kw = (if starts_with s ''import'' then 6 else if starts_with s ''require'' then 7 else 0) in
      if kw = 0 then None
      else
        let ws = length (takeWhile is_space (drop kw s));
            paren = (if starts_with (drop (kw + ws) s) ''('' then 1 else 0);
            r = drop (kw + ws + paren) s
        in (case r of
              [] \<Rightarrow> None
            | q # r' \<Rightarrow>
                if \<not> is_quote q then None
                else
                  let spec = takeWhile (\<lambda>c. \<not> is_quote c) r';
                      after = drop (length spec) r'
                  in if spec = [] \<or> after = [] then None
                     else Some (spec, kw + ws + paren + 1 + length spec + 1 +
                                (if starts_with (tl after) '')'' then 1 else 0))))"

section \<open>The apply route: parsing generated text, inferring packages\<close>

text \<open>
  A JavaScript \<open>Map\<close> from strings to strings keeps its keys in insertion order:
  a list of pairs with distinct keys. \<open>map_set\<close> is \<open>Map.set\<close>.
\<close>

fun map_set :: "(string \<times> string) list \<Rightarrow> string \<Rightarrow> string \<Rightarrow> (string \<times> string) list" where
  "map_set [] k v = [(k, v)]"
| "map_set ((k', v') # kvs) k v = (if k' = k then (k, v) # kvs else (k', v') # map_set kvs k v)"

text \<open>The body of both loops of \<open>parseAIGeneratedCode\<close>: \<open>// Keep the longest version if duplicate\<close>.\<close>

definition keep_longest :: "(string \<times> string) list \<Rightarrow> string \<times> string \<Rightarrow> (string \<times> string) list" where
  "keep_longest fileMap m =
     (case m of (filePath, text) \<Rightarrow>
        if map_of fileMap filePath = None \<or>
           length text > (case map_of fileMap filePath of None \<Rightarrow> 0 | Some old \<Rightarrow> length old)
        then map_set fileMap filePath text else fileMap)"

text \<open>The matches of the two expressions, with the content trimmed.\<close>

definition file_tag_matches :: "string \<Rightarrow> (string \<times> string) list" where
  "file_tag_matches generatedCode =
     map (\<lambda>(p, c). (p, trim c)) (scan match_file_tag 0 generatedCode)"

definition markdown_matches :: "string \<Rightarrow> (string \<times> string) list" where
  "markdown_matches generatedCode =
     concat (map (\<lambda>(po, c). case po of None \<Rightarrow> [] | Some p \<Rightarrow> [(p, trim c)])
                 (scan match_markdown 0 generatedCode))"

definition parseAIGeneratedCode :: "string \<Rightarrow> file_to_apply list" where
  "parseAIGeneratedCode generatedCode =
     map (\<lambda>(p, c). \<lparr>path = p, content = c\<rparr>)
       (foldl keep_longest (foldl keep_longest [] (file_tag_matches generatedCode))
          (markdown_matches generatedCode))"

text \<open>The package name of a specifier: two segments for a scoped one, else one.\<close>

definition package_name :: "string \<Rightarrow> string" where
  "package_name importPath =
     (if starts_with importPath ''@'' then join ''/'' (take 2 (split_slash importPath))
      else hd (split_slash importPath))"

text \<open>\<open>Set.add\<close> on a set kept in insertion order.\<close>

definition set_add :: "string list \<Rightarrow> string \<Rightarrow> string list" where
  "set_add xs x = (if x \<in> set xs then xs else xs @ [x])"

definition skipped_import :: "string \<Rightarrow> bool" where
  "skipped_import importPath =
     (starts_with importPath ''.'' \<or> starts_with importPath ''/'' \<or>
      starts_with importPath ''@/'' \<or> importPath \<in> set [''react'', ''react-dom'', ''next''])"

definition extractPackages :: "file_to_apply list \<Rightarrow> string list" where
  "extractPackages files =
     foldl (\<lambda>packages file.
              foldl (\<lambda>acc importPath.
                       if skipped_import importPath then acc
                       else set_add acc (package_name importPath))
                    packages (scan match_import 0 (content file)))
           [] files"

section \<open>The generation route: files and packages of the generated text\<close>

definition gen_files :: "string \<Rightarrow> file_to_apply list" where
  "gen_files generatedCode =
     map (\<lambda>(p, c). \<lparr>path = p, content = trim c\<rparr>) (scan match_file_tag_gen 0 generatedCode)"

definition gen_skipped :: "string \<Rightarrow> bool" where
  "gen_skipped pkg =
     (starts_with pkg ''.'' \<or> starts_with pkg ''/'' \<or>
      pkg \<in> set [''fs'', ''path'', ''http'', ''https'', ''crypto'', ''os'', ''util'', ''events''])"

text \<open>The loop \<open>// Detect packages from imports\<close> of the generation \<open>POST\<close>.\<close>

definition packagesToInstall :: "file_to_apply list \<Rightarrow> string list" where
  "packagesToInstall files =
     foldl (\<lambda>packages file.
              foldl (\<lambda>acc pkg.
                       if gen_skipped pkg then acc
                       else set_add acc (package_name pkg))
                    packages (scan match_import 0 (content file)))
           [] files"

section \<open>The apply route: file system and event stream\<close>

text \<open>
  The file system under the handler: what is at each absolute path. The calls of
  \<open>fs.promises\<close> can fail for reasons outside the program (permissions, a full disk,
  a parent that is a file): \<open>fault\<close> says for each call, in each state of the file
  system, whether it throws and what.
\<close>

datatype node = File string | Dir

type_synonym filesystem = "string \<Rightarrow> node option"

datatype fs_call = Access | Mkdir | WriteFile

record fs_env =
  projectRoot :: string
  fault :: "fs_call \<Rightarrow> filesystem \<Rightarrow> string \<Rightarrow> thrown option"

text \<open>\<open>fs.access(p)\<close>: resolves when something is at \<open>p\<close>.\<close>

definition fs_access :: "fs_env \<Rightarrow> filesystem \<Rightarrow> string \<Rightarrow> bool" where
  "fs_access env fs p = (fault env Access fs p = None \<and> fs p \<noteq> None)"

text \<open>The directory at an absolute path and the directories above it, the root apart.\<close>

definition ancestors :: "string \<Rightarrow> string list" where
  "ancestors d =
     (let segs = filter (\<lambda>s. s \<noteq> []) (split_slash d) in
      map (\<lambda>k. ''/'' @ join ''/'' (take k segs)) [1 ..< Suc (length segs)])"

definition is_file :: "filesystem \<Rightarrow> string \<Rightarrow> bool" where
  "is_file fs p = (case fs p of Some (File c) \<Rightarrow> True | _ \<Rightarrow> False)"

text \<open>\<open>fs.mkdir(d, { recursive: true })\<close>: it throws where a file is in the way.\<close>

definition with_dirs :: "filesystem \<Rightarrow> string list \<Rightarrow> filesystem" where
  "with_dirs fs ds = fs ++ map_of (map (\<lambda>a. (a, Dir)) ds)"

definition fs_mkdir :: "fs_env \<Rightarrow> filesystem \<Rightarrow> string \<Rightarrow> thrown + filesystem" where
  "fs_mkdir env fs d =
     (case fault env Mkdir fs d of
        Some e \<Rightarrow> Inl e
      | None \<Rightarrow>
          if list_ex (is_file fs) (ancestors d)
          then Inl (JsError ''EEXIST: file already exists, mkdir'')
          else Inr (with_dirs fs (ancestors d)))"

text \<open>\<open>fs.writeFile(p, content, 'utf-8')\<close>: it throws on a directory.\<close>

definition fs_writeFile :: "fs_env \<Rightarrow> filesystem \<Rightarrow> string \<Rightarrow> string \<Rightarrow> thrown + filesystem" where
  "fs_writeFile env fs p c =
     (case fault env WriteFile fs p of
        Some e \<Rightarrow> Inl e
      | None \<Rightarrow>
          if fs p = Some Dir
          then Inl (JsError ''EISDIR: illegal operation on a directory, open'')
          else Inr (fs(p \<mapsto> File c)))"

definition ensureDirectory :: "fs_env \<Rightarrow> filesystem \<Rightarrow> string \<Rightarrow> thrown + filesystem" where
  "ensureDirectory env fs filePath =
     (let absoluteDir = resolve (projectRoot env) (dirname filePath) in
      if fs_access env fs absoluteDir then Inr fs else fs_mkdir env fs absoluteDir)"

definition fileExists :: "fs_env \<Rightarrow> filesystem \<Rightarrow> string \<Rightarrow> bool" where
  "fileExists env fs filePath = fs_access env fs (resolve (projectRoot env) filePath)"

definition writeFile :: "fs_env \<Rightarrow> filesystem \<Rightarrow> string \<Rightarrow> string \<Rightarrow> thrown + filesystem" where
  "writeFile env fs filePath c = fs_writeFile env fs (resolve (projectRoot env) filePath) c"

definition sanitizeContent :: "string \<Rightarrow> string \<Rightarrow> string" where
  "sanitizeContent c filePath = c"

record apply_results =
  filesCreated :: "string list"
  filesUpdated :: "string list"
  filesSkipped :: "string list"
  errors :: "string list"
  packages :: "string list"

text \<open>
  \<open>ProgressMessage\<close>, one constructor for each \<open>type\<close> with the fields the handler
  sets: \<open>FileProgress current total fileName action\<close>, \<open>FileComplete fileName action\<close>,
  \<open>FileError fileName error\<close>, \<open>Complete message results\<close>.
\<close>

datatype progress =
    Status string
  | FileProgress nat nat string string
  | FileComplete string string
  | FileError string string
  | Complete string apply_results
  | Error string

text \<open>
  The state of the background task: the file system, \<open>results\<close>, and the messages
  given to \<open>sendProgress\<close> so far.
\<close>

record run_state =
  st_fs :: filesystem
  st_results :: apply_results
  st_events :: "progress list"

definition sendProgress :: "progress \<Rightarrow> run_state \<Rightarrow> run_state" where
  "sendProgress ev st = st\<lparr>st_events := st_events st @ [ev]\<rparr>"

definition push_error :: "string \<Rightarrow> run_state \<Rightarrow> run_state" where
  "push_error e st = st\<lparr>st_results := (st_results st)\<lparr>errors := errors (st_results st) @ [e]\<rparr>\<rparr>"

definition push_created :: "string \<Rightarrow> run_state \<Rightarrow> run_state" where
  "push_created p st =
     st\<lparr>st_results := (st_results st)\<lparr>filesCreated := filesCreated (st_results st) @ [p]\<rparr>\<rparr>"

definition push_updated :: "string \<Rightarrow> run_state \<Rightarrow> run_state" where
  "push_updated p st =
     st\<lparr>st_results := (st_results st)\<lparr>filesUpdated := filesUpdated (st_results st) @ [p]\<rparr>\<rparr>"

text \<open>The \<open>catch\<close> of the loop body.\<close>

definition errorMessage :: "thrown \<Rightarrow> string" where
  "errorMessage e = (case e of JsError m \<Rightarrow> m | NonError \<Rightarrow> ''Unknown error'')"

definition file_catch :: "file_to_apply \<Rightarrow> thrown \<Rightarrow> run_state \<Rightarrow> run_state" where
  "file_catch file e st =
     sendProgress (FileError (path file) (errorMessage e))
       (push_error (path file @ '': '' @ errorMessage e) st)"

text \<open>The body of the loop \<open>// Process each file\<close>, for the file at index \<open>currentIndex\<close>.\<close>

definition process_file :: "fs_env \<Rightarrow> nat \<Rightarrow> nat \<Rightarrow> file_to_apply \<Rightarrow> run_state \<Rightarrow> run_state" where
  "process_file env tot currentIndex file st =
     (let normalizedPath = normalizeFilePath (path file);
          st1 = sendProgress (FileProgress currentIndex tot normalizedPath ''validating'') st
      in case isPathSafe (projectRoot env) normalizedPath of
           Unsafe reason \<Rightarrow>
             sendProgress
               (FileError normalizedPath (if reason = [] then ''Path validation failed'' else reason))
               (push_error (normalizedPath @ '': '' @ reason) st1)
         | Safe \<Rightarrow>
             let exists = fileExists env (st_fs st1) normalizedPath;
                 st2 = sendProgress
                         (FileProgress currentIndex tot normalizedPath
                            (if exists then ''updating'' else ''creating'')) st1;
                 sanitizedContent = sanitizeContent (content file) normalizedPath
             in (case ensureDirectory env (st_fs st2) normalizedPath of
                   Inl e \<Rightarrow> file_catch file e st2
                 | Inr fs1 \<Rightarrow>
                     (case writeFile env fs1 normalizedPath sanitizedContent of
                        Inl e \<Rightarrow> file_catch file e (st2\<lparr>st_fs := fs1\<rparr>)
                      | Inr fs2 \<Rightarrow>
                          sendProgress
                            (FileComplete normalizedPath (if exists then ''updated'' else ''created''))
                            ((if exists then push_updated normalizedPath
                              else push_created normalizedPath) (st2\<lparr>st_fs := fs2\<rparr>)))))"

fun process_files :: "fs_env \<Rightarrow> nat \<Rightarrow> nat \<Rightarrow> file_to_apply list \<Rightarrow> run_state \<Rightarrow> run_state" where
  "process_files env tot currentIndex [] st = st"
| "process_files env tot currentIndex (file # files) st =
     process_files env tot (Suc currentIndex) files (process_file env tot currentIndex file st)"

text \<open>
  An apply request: a body that is not JSON, or the typed body. The outcome of the
  background task: the file system, the messages sent, and whether the writer was
  closed.
\<close>

datatype apply_request = InvalidJson | JsonBody apply_body

record apply_run =
  run_fs :: filesystem
  run_events :: "progress list"
  run_closed :: bool

definition complete_message :: "apply_results \<Rightarrow> string" where
  "complete_message results =
     ''Applied '' @ show_nat (length (filesCreated results) + length (filesUpdated results)) @
     '' file(s) successfully'' @
     (if length (errors results) > 0
      then '', '' @ show_nat (length (errors results)) @ '' error(s)'' else [])"

text \<open>
  The files the schema is given: \<open>body.files\<close>, or the files parsed from
  \<open>generatedCode\<close> when that is a non-empty string and \<open>files\<close> is missing.
\<close>

definition request_files :: "apply_body \<Rightarrow> file_to_apply list option" where
  "request_files body =
     (case (body_generatedCode body, body_files body) of
        (Some (c # cs), None) \<Rightarrow> Some (parseAIGeneratedCode (c # cs))
      | _ \<Rightarrow> body_files body)"

text \<open>The state in which the loop starts: the status message sent, \<open>results\<close> initialized.\<close>

definition start_state :: "filesystem \<Rightarrow> string list \<Rightarrow> nat \<Rightarrow> run_state" where
  "start_state fs pkgs n =
     \<lparr>st_fs = fs,
      st_results =
        \<lparr>filesCreated = [], filesUpdated = [], filesSkipped = [], errors = [], packages = pkgs\<rparr>,
      st_events = [Status (''Processing '' @ show_nat n @ '' files...'')]\<rparr>"

text \<open>\<open>body.packages || extractPackages(validatedData.files)\<close>.\<close>

definition request_packages :: "apply_body \<Rightarrow> file_to_apply list \<Rightarrow> string list" where
  "request_packages body files =
     (case body_packages body of Some ps \<Rightarrow> ps | None \<Rightarrow> extractPackages files)"

definition apply_POST :: "fs_env \<Rightarrow> filesystem \<Rightarrow> apply_request \<Rightarrow> apply_run" where
  "apply_POST env fs req =
     (case req of
        InvalidJson \<Rightarrow>
          \<lparr>run_fs = fs, run_events = [Error ''Invalid JSON in request body''], run_closed = True\<rparr>
      | JsonBody body \<Rightarrow>
          (case schema_issues (request_files body) of
             i # rest \<Rightarrow>
               \<lparr>run_fs = fs,
                run_events = [Error (''Validation failed: '' @ join '', '' (i # rest))],
                run_closed = True\<rparr>
           | [] \<Rightarrow>
               let files = the (request_files body);
                   st = process_files env (length files) 1 files
                          (start_state fs (request_packages body files) (length files))
               in \<lparr>run_fs = st_fs st,
                   run_events =
                     st_events st @ [Complete (complete_message (st_results st)) (st_results st)],
                   run_closed = True\<rparr>))"

text \<open>The results that the final \<open>complete\<close> event of a run carries.\<close>

definition final_results :: "apply_run \<Rightarrow> apply_results option" where
  "final_results run =
     (case rev (run_events run) of
        Complete msg results # earlier \<Rightarrow> Some results
      | _ \<Rightarrow> None)"





section \<open>Two runs of a batch: targets and invariants\<close>

text \<open>
  The place of a file on disk, and the directory that \<open>ensureDirectory\<close> makes for
  it. \<open>no_faults\<close>: no call of the file system fails for an outside reason.
  \<open>dir_ready\<close>: \<open>ensureDirectory\<close> has nothing left to do for a directory.
\<close>

definition target :: "fs_env \<Rightarrow> file_to_apply \<Rightarrow> string" where
  "target env file = resolve (projectRoot env) (normalizeFilePath (path file))"

definition dir_of :: "fs_env \<Rightarrow> file_to_apply \<Rightarrow> string" where
  "dir_of env file = resolve (projectRoot env) (dirname (normalizeFilePath (path file)))"

definition no_faults :: "fs_env \<Rightarrow> bool" where
  "no_faults env \<longleftrightarrow> (\<forall>call fs p. fault env call fs p = None)"

definition dir_ready :: "filesystem \<Rightarrow> string \<Rightarrow> bool" where
  "dir_ready fs d \<longleftrightarrow> fs d \<noteq> None \<or> (\<forall>a \<in> set (ancestors d). fs a = Some Dir)"

text \<open>What the writes of a list of files leave at each path: the last content written.\<close>

definition written :: "fs_env \<Rightarrow> file_to_apply list \<Rightarrow> filesystem" where
  "written env files = map_of (rev (map (\<lambda>f. (target env f, File (content f))) files))"

text \<open>
  The invariant of a first run that has processed the files \<open>prev\<close> without an error,
  from the file system \<open>fs0\<close>.
\<close>

definition first_run_inv :: "fs_env \<Rightarrow> filesystem \<Rightarrow> file_to_apply list \<Rightarrow> run_state \<Rightarrow> bool" where
  "first_run_inv env fs0 prev st \<longleftrightarrow>
     (\<forall>q. is_file (st_fs st) q \<longrightarrow> is_file fs0 q \<or> q \<in> target env ` set prev) \<and>
     (\<forall>g \<in> set prev. normalizeFilePath (path g) \<in> set (filesCreated (st_results st))) \<and>
     set (filesCreated (st_results st)) \<subseteq> (\<lambda>g. normalizeFilePath (path g)) ` set prev \<and>
     (\<forall>q v. written env prev q = Some v \<longrightarrow> st_fs st q = Some v) \<and>
     (\<forall>g \<in> set prev. dir_ready (st_fs st) (dir_of env g)) \<and>
     (\<forall>g \<in> set prev. isPathSafe (projectRoot env) (normalizeFilePath (path g)) = Safe)"

section \<open>Concrete inputs\<close>

text \<open>A sandbox in which every command prints on both streams and exits with code 2.\<close>

definition failing_sandbox :: sandbox where
  "failing_sandbox cmd args =
     Inr \<lparr>res_stdout = Inr ''out'', res_stderr = Inr ''bad'', res_exitCode = 2\<rparr>"

text \<open>A file system in which no call fails for outside reasons, rooted at \<open>/app\<close>.\<close>

definition plain_env :: fs_env where
  "plain_env = \<lparr>projectRoot = ''/app'', fault = (\<lambda>call fs p. None)\<rparr>"


text \<open>A project in which \<open>src/a.txt\<close> is already there.\<close>

definition existing_fs :: filesystem where
  "existing_fs = [''/app'' \<mapsto> Dir, ''/app/src'' \<mapsto> Dir, ''/app/src/a.txt'' \<mapsto> File ''old'']"

text \<open>Request bodies and a generated text.\<close>

definition one_file_body :: apply_body where
  "one_file_body =
     \<lparr>body_files = Some [\<lparr>path = ''src/a.txt'', content = ''hi''\<rparr>],
      body_generatedCode = None, body_packages = Some []\<rparr>"

definition two_files :: "file_to_apply list" where
  "two_files =
     [\<lparr>path = ''src/a.txt'', content = ''hi''\<rparr>, \<lparr>path = ''lib/c.ts'', content = ''export {}''\<rparr>]"

definition two_files_body :: apply_body where
  "two_files_body =
     \<lparr>body_files = Some two_files, body_generatedCode = None, body_packages = Some []\<rparr>"







definition unnormalized_body :: apply_body where
  "unnormalized_body =
     \<lparr>body_files = Some [\<lparr>path = ''src//a.ts'', content = ''x''\<rparr>],
      body_generatedCode = None, body_packages = None\<rparr>"

definition traversal_body :: apply_body where
  "traversal_body =
     \<lparr>body_files = Some [\<lparr>path = ''../etc/passwd'', content = ''x''\<rparr>],
      body_generatedCode = None, body_packages = None\<rparr>"

definition empty_body :: apply_body where
  "empty_body = \<lparr>body_files = Some [], body_generatedCode = None, body_packages = None\<rparr>"

definition alias_import_text :: string where
  "alias_import_text =
     ''<file path='' @ [dq] @ ''src/App.tsx'' @ [dq] @ ''>import '' @ [sq] @ ''@/components/Button'' @ [sq] @
     ''; require('' @ [sq] @ ''lodash/fp'' @ [sq] @ '');</file>''"

text \<open>
  The merge of \<open>parseAIGeneratedCode\<close> on a list of matches, in the order the loops
  meet them. \<open>longest_of ms f\<close>: the map \<open>f\<close> holds, for each path matched in \<open>ms\<close>
  and for no other, a matched content that no other match of that path exceeds in
  length.
\<close>

definition merge_matches :: "(string \<times> string) list \<Rightarrow> (string \<times> string) list" where
  "merge_matches ms = foldl keep_longest [] ms"

definition longest_of :: "(string \<times> string) list \<Rightarrow> (string \<Rightarrow> string option) \<Rightarrow> bool" where
  "longest_of ms f \<longleftrightarrow>
     (\<forall>p c. f p = Some c \<longrightarrow>
        (p, c) \<in> set ms \<and> (\<forall>c'. (p, c') \<in> set ms \<longrightarrow> length c' \<le> length c)) \<and>
     (\<forall>p c. (p, c) \<in> set ms \<longrightarrow> f p \<noteq> None)"

text \<open>
  \<open>first_longest ms p c\<close>: among the matches \<open>ms\<close>, in their order, \<open>c\<close> is the
  first content of maximal length for the path \<open>p\<close>: every match of \<open>p\<close> before it
  is strictly shorter, none after it is longer.
\<close>

definition first_longest :: "(string \<times> string) list \<Rightarrow> string \<Rightarrow> string \<Rightarrow> bool" where
  "first_longest ms p c \<longleftrightarrow>
     (\<exists>xs ys. ms = xs @ (p, c) # ys \<and>
        (\<forall>c'. (p, c') \<in> set xs \<longrightarrow> length c' < length c) \<and>
        (\<forall>c'. (p, c') \<in> set ys \<longrightarrow> length c' \<le> length c))"

text \<open>
  Generated texts with a tagged block and a fenced block for the same path: contents
  of equal length, and contents of length 3 and 10.
\<close>

definition tie_text :: string where
  "tie_text =
     ''<file path='' @ [dq] @ ''src/x.ts'' @ [dq] @ ''>abc</file>'' @ [CHR 0x0A] @
     fence @ ''ts path='' @ [dq] @ ''src/x.ts'' @ [dq] @ [CHR 0x0A] @ ''xyz'' @ fence"

definition short_long_text :: string where
  "short_long_text =
     ''<file path='' @ [dq] @ ''src/x.ts'' @ [dq] @ ''>abc</file>'' @ [CHR 0x0A] @
     fence @ ''ts path='' @ [dq] @ ''src/x.ts'' @ [dq] @ [CHR 0x0A] @ ''0123456789'' @ fence"

section \<open>Verified properties\<close>

subsection \<open>The run-command endpoint\<close>

lemma split_ws_from_nonempty: "split_ws_from b cur s \<noteq> []"
  by (induction s arbitrary: b cur) auto

lemma split_ws_nonempty: "split_ws s \<noteq> []"
  by (simp add: split_ws_def split_ws_from_nonempty)



text \<open>
  Claim C10 says that the status is 400 exactly when the command field is missing or no
  sandbox session is active. A body that cannot be read is answered by the
  \<open>catch\<close> with status 500 also when no sandbox is active; and a command that is
  present but is the empty string is answered with status 400 although a sandbox is
  active.
\<close>

theorem run_command_counterexample:
  "rc_status (run_command_POST None (Unreadable (JsError ''Unexpected end of JSON input''))) = 500 \<and>
   rc_status (run_command_POST (Some failing_sandbox) (Body (JStr ''''))) = 400"
  by (simp add: run_command_POST_def caught_def failure_def)



subsection \<open>Provider selection\<close>

lemma model_config_provider:
  "config_provider m = Some P \<Longrightarrow> (P = ''google'' \<or> P = ''groq'') \<and> in_MODEL_CONFIG m \<and> config_model m \<noteq> None \<and> config_model m \<noteq> Some []"
  by (auto simp: config_provider_def config_model_def in_MODEL_CONFIG_def MODEL_CONFIG_def split: if_splits)

text \<open>
  Claim C7 says that a request naming a provider without credentials fails over to
  the other configured provider, however the provider was named. With only the Groq
  key set, a request that names \<open>google\<close> explicitly is answered with status 400
  and an error; there is no failover.
\<close>

theorem provider_failover_counterexample:
  "generate_POST_select \<lparr>hasGeminiKey = False, hasGroqKey = True\<rparr>
     \<lparr>gen_prompt = JStr ''hi'', gen_model = None, gen_provider = Some ''google''\<rparr> =
   Responded 400 (''Provider '' @ [CHR 0x27] @ ''google'' @ [CHR 0x27] @
                  '' is not configured. Please set the appropriate API key.'')"
  by (simp add: generate_POST_select_def requested_model_def valid_prompt_def trim_def is_space_def
      initializeProviders_def provider_available_def)

text \<open>
  Claim C7, as amended. For a request with a valid prompt: when no provider has
  credentials the request is answered with status 500 before any stream is opened; a
  provider named explicitly that is not configured is answered with status 400, also
  before any stream, whether or not the other provider is configured; and when no
  provider is named and the model's entry in \<open>MODEL_CONFIG\<close> names a provider
  without credentials, the other provider is configured and is the one selected, with
  the model name of that entry.
\<close>

theorem provider_failover_by_model:
  assumes "valid_prompt (gen_prompt req)"
  shows "(\<not> hasGeminiKey env \<and> \<not> hasGroqKey env \<longrightarrow>
            (\<exists>msg. generate_POST_select env req = Responded 500 msg)) \<and>
         (initializeProviders env = Inr ps \<and> gen_provider req = Some p \<and> p \<noteq> [] \<and>
          \<not> provider_available ps (Some p) \<longrightarrow>
            (\<exists>msg. generate_POST_select env req = Responded 400 msg)) \<and>
         (initializeProviders env = Inr ps \<and> (gen_provider req = None \<or> gen_provider req = Some []) \<and>
          config_provider (requested_model req) = Some P \<and> \<not> provider_available ps (Some P) \<longrightarrow>
            provider_available ps (Some (other_provider (Some P))) \<and>
            generate_POST_select env req =
              Proceeds (Some (other_provider (Some P))) (config_model (requested_model req)))"
proof (intro conjI impI)
  assume "\<not> hasGeminiKey env \<and> \<not> hasGroqKey env"
  with assms show "\<exists>msg. generate_POST_select env req = Responded 500 msg"
    by (simp add: generate_POST_select_def initializeProviders_def Let_def)
next
  assume "initializeProviders env = Inr ps \<and> gen_provider req = Some p \<and> p \<noteq> [] \<and>
          \<not> provider_available ps (Some p)"
  with assms show "\<exists>msg. generate_POST_select env req = Responded 400 msg"
    by (cases p) (simp_all add: generate_POST_select_def Let_def)
next
  assume a: "initializeProviders env = Inr ps \<and> (gen_provider req = None \<or> gen_provider req = Some []) \<and>
          config_provider (requested_model req) = Some P \<and> \<not> provider_available ps (Some P)"
  then have P: "P = ''google'' \<or> P = ''groq''" and inm: "in_MODEL_CONFIG (requested_model req)"
    and cm: "config_model (requested_model req) \<noteq> None" "config_model (requested_model req) \<noteq> Some []"
    using model_config_provider by blast+
  from a have ps: "google ps \<or> groq ps"
    by (auto simp: initializeProviders_def split: if_splits)
  from a P ps show av: "provider_available ps (Some (other_provider (Some P)))"
    by (auto simp: provider_available_def other_provider_def)
  from a have sel: "generate_POST_select env req =
      verify_provider ps (requested_model req) (Some P) (config_model (requested_model req))"
    using assms inm by (auto simp: generate_POST_select_def Let_def)
  have fm: "final_model (requested_model req) (config_model (requested_model req)) =
      config_model (requested_model req)"
    using cm by (auto simp: final_model_def Let_def)
  show "generate_POST_select env req =
      Proceeds (Some (other_provider (Some P))) (config_model (requested_model req))"
    using a av fm by (simp add: sel verify_provider_def Let_def)
qed

theorem provider_failover_by_model_witness:
  "generate_POST_select \<lparr>hasGeminiKey = False, hasGroqKey = True\<rparr>
     \<lparr>gen_prompt = JStr ''hi'', gen_model = Some ''gemini-1.5-pro'', gen_provider = None\<rparr> =
   Proceeds (Some ''groq'') (Some ''gemini-1.5-pro-002'') \<and>
   (\<exists>msg. generate_POST_select \<lparr>hasGeminiKey = False, hasGroqKey = True\<rparr>
     \<lparr>gen_prompt = JStr ''hi'', gen_model = Some ''gemini-1.5-pro'', gen_provider = Some ''google''\<rparr> =
     Responded 400 msg) \<and>
   (\<exists>msg. generate_POST_select \<lparr>hasGeminiKey = False, hasGroqKey = False\<rparr>
     \<lparr>gen_prompt = JStr ''hi'', gen_model = Some ''gemini-1.5-pro'', gen_provider = None\<rparr> =
     Responded 500 msg)"
proof -
  have vp: "valid_prompt (JStr ''hi'')"
    by (simp add: valid_prompt_def trim_def is_space_def)
  have cp: "config_provider ''gemini-1.5-pro'' = Some ''google''"
    "config_model ''gemini-1.5-pro'' = Some ''gemini-1.5-pro-002''"
    by (simp_all add: config_provider_def config_model_def MODEL_CONFIG_def)
  have ip: "initializeProviders \<lparr>hasGeminiKey = False, hasGroqKey = True\<rparr> =
      Inr \<lparr>google = False, groq = True\<rparr>"
    by (simp add: initializeProviders_def)
  have na: "\<not> provider_available \<lparr>google = False, groq = True\<rparr> (Some ''google'')"
    by (simp add: provider_available_def)
  note t1 = provider_failover_by_model [of
      "\<lparr>gen_prompt = JStr ''hi'', gen_model = Some ''gemini-1.5-pro'', gen_provider = None\<rparr>"
      "\<lparr>hasGeminiKey = False, hasGroqKey = True\<rparr>" "\<lparr>google = False, groq = True\<rparr>" "''x''" "''google''"]
  note t2 = provider_failover_by_model [of
      "\<lparr>gen_prompt = JStr ''hi'', gen_model = Some ''gemini-1.5-pro'', gen_provider = Some ''google''\<rparr>"
      "\<lparr>hasGeminiKey = False, hasGroqKey = True\<rparr>" "\<lparr>google = False, groq = True\<rparr>" "''google''" "''google''"]
  note t3 = provider_failover_by_model [of
      "\<lparr>gen_prompt = JStr ''hi'', gen_model = Some ''gemini-1.5-pro'', gen_provider = None\<rparr>"
      "\<lparr>hasGeminiKey = False, hasGroqKey = False\<rparr>" "\<lparr>google = False, groq = True\<rparr>" "''x''" "''google''"]
  show ?thesis
    using vp cp ip na t1 t2 t3 by (simp add: requested_model_def other_provider_def)
qed

subsection \<open>Path policy\<close>

lemma split_slash_from_prefix:
  "CHR ''/'' \<notin> set xs \<Longrightarrow>
   split_slash_from cur (xs @ CHR ''/'' # ys) = (rev cur @ xs) # split_slash_from [] ys"
  by (induction xs arbitrary: cur) auto

lemma split_slash_from_nonempty: "split_slash_from cur s \<noteq> []"
  by (induction s arbitrary: cur) auto

lemma normalize_segs_keeps_dotdot:
  "\<exists>rest. normalize_segs True (xs @ [''..'']) ss = ''..'' # rest"
proof (induction ss arbitrary: xs)
  case Nil
  then show ?case by simp
next
  case (Cons s ss)
  show ?case
  proof (cases "s = [] \<or> s = ''.''")
    case True
    then show ?thesis using Cons.IH [of xs] by auto
  next
    case False
    show ?thesis
    proof (cases "s = ''..''")
      case True
      show ?thesis
      proof (cases xs)
        case Nil
        then show ?thesis using True Cons.IH [of "[''..'']"] by simp
      next
        case (Cons t ts)
        then show ?thesis
          using True Cons.IH [of "''..'' # t # ts"] Cons.IH [of ts] by auto
      qed
    next
      case F2: False
      then show ?thesis using False Cons.IH [of "s # xs"] by simp
    qed
  qed
qed

lemma join_Cons_starts: "\<exists>r. join sep (x # xs) = x @ r"
  by (cases xs) auto

lemma str_includes_prefix: "p \<noteq> [] \<Longrightarrow> str_includes (p @ r) p"
  by (cases p) (auto simp: starts_with_def)

lemma starts_with_append: "starts_with p q \<Longrightarrow> \<exists>ys. p = q @ ys"
  by (metis append_take_drop_id starts_with_def)

lemma normalize_leading_dotdot:
  assumes "p = ''..'' \<or> starts_with p ''../''"
  shows "str_includes (path_normalize p) ''..''"
proof -
  from assms have "p = ''..'' \<or> (\<exists>ys. p = ''..'' @ CHR ''/'' # ys)"
    using starts_with_append [of p "''../''"] by auto
  then have segs: "\<exists>ss. split_slash p = ''..'' # ss" and rel: "\<not> isAbsolute p" "p \<noteq> []"
  proof -
    assume d: "p = ''..'' \<or> (\<exists>ys. p = ''..'' @ CHR ''/'' # ys)"
    show "\<exists>ss. split_slash p = ''..'' # ss"
    proof (rule disjE [OF d])
      assume "p = ''..''"
      then show ?thesis by (simp add: split_slash_def)
    next
      assume "\<exists>ys. p = ''..'' @ CHR ''/'' # ys"
      then obtain ys where p: "p = ''..'' @ CHR ''/'' # ys" by blast
      have "split_slash_from [] (''..'' @ CHR ''/'' # ys) = (rev [] @ ''..'') # split_slash_from [] ys"
        by (rule split_slash_from_prefix) simp
      then show ?thesis using p by (simp add: split_slash_def)
    qed
    from d show "\<not> isAbsolute p" by (auto simp: isAbsolute_def)
    from d show "p \<noteq> []" by auto
  qed
  then obtain ss where ss: "split_slash p = ''..'' # ss" by blast
  obtain rest where r: "normalize_segs True ([] @ [''..'']) ss = ''..'' # rest"
    using normalize_segs_keeps_dotdot by blast
  then have "normalizeString p True = join ''/'' (''..'' # rest)"
    by (simp add: normalizeString_def ss)
  then obtain r' where r': "normalizeString p True = ''..'' @ r'"
    using join_Cons_starts by metis
  then have "\<exists>t. path_normalize p = ''..'' @ t"
    using rel by (simp add: path_normalize_def Let_def)
  then obtain t where "path_normalize p = ''..'' @ t" by blast
  then show ?thesis using str_includes_prefix [of "''..''" t] by simp
qed

text \<open>
  Claim C2 says that every path with a parent-directory segment is classified as
  path traversal, also one such as \<open>src/a/../b.ts\<close> that stays inside the project
  root. \<open>isPathSafe\<close> normalizes first and looks for \<open>..\<close> in the normalized
  path: that path becomes \<open>src/b.ts\<close> and is classified safe.
\<close>

theorem path_traversal_counterexample:
  "isPathSafe ''/home/app'' ''src/a/../b.ts'' = Safe"
  by code_simp

text \<open>
  Claim C2, as amended. Whatever the project root and the other checks: a path whose
  normalized form still contains \<open>..\<close> is rejected with the reason
  \<open>Path traversal detected\<close>, before every other check; this is so for every path
  that is \<open>..\<close> or begins with \<open>../\<close>.
\<close>

theorem path_traversal_after_normalize:
  "(str_includes (path_normalize p) ''..'' \<longrightarrow> isPathSafe root p = Unsafe ''Path traversal detected'') \<and>
   (p = ''..'' \<or> starts_with p ''../'' \<longrightarrow> isPathSafe root p = Unsafe ''Path traversal detected'')"
  using normalize_leading_dotdot by (auto simp: isPathSafe_def Let_def)

theorem path_traversal_after_normalize_witness:
  "str_includes (path_normalize ''src/../../etc/passwd.txt'') ''..'' \<and>
   isPathSafe ''/home/app'' ''src/../../etc/passwd.txt'' = Unsafe ''Path traversal detected'' \<and>
   starts_with ''../secret.ts'' ''../'' \<and>
   isPathSafe ''/home/app'' ''../secret.ts'' = Unsafe ''Path traversal detected''"
proof -
  have a: "str_includes (path_normalize ''src/../../etc/passwd.txt'') ''..''" by code_simp
  have b: "starts_with ''../secret.ts'' ''../''" by code_simp
  show ?thesis
    using a b path_traversal_after_normalize [of "''src/../../etc/passwd.txt''" "''/home/app''"]
      path_traversal_after_normalize [of "''../secret.ts''" "''/home/app''"]
    by simp
qed

subsection \<open>Request validation and package inference\<close>

lemma invalid_format_issue:
  "\<not> path_format_ok p \<Longrightarrow> ''Invalid path format'' \<in> set (path_issues p)"
  by (simp add: path_issues_def)

lemma path_issues_in_schema:
  "f \<in> set files \<Longrightarrow> set (path_issues (path f)) \<subseteq> set (schema_issues (Some files))"
  by (auto simp: schema_issues_def)

lemma apply_POST_rejects:
  assumes "schema_issues (request_files body) \<noteq> []"
  shows "apply_POST env fs (JsonBody body) =
     \<lparr>run_fs = fs,
      run_events = [Error (''Validation failed: '' @ join '', '' (schema_issues (request_files body)))],
      run_closed = True\<rparr>"
  using assms by (cases "schema_issues (request_files body)") (simp_all add: apply_POST_def)

text \<open>
  Claim C9 counts a trailing separator among the paths that the third refinement of
  the schema rejects. \<open>path.normalize\<close> keeps a trailing separator, so such a path
  is its own normal form and the schema raises no issue for it.
\<close>

theorem schema_trailing_separator_counterexample:
  "path_format_ok ''src/lib/'' \<and> path_issues ''src/lib/'' = [] \<and>
   schema_issues (Some [\<lparr>path = ''src/lib/'', content = ''x''\<rparr>]) = []"
  by code_simp

text \<open>
  Claim C9, as amended. A batch with a path \<open>p\<close> for which \<open>normalize(p)\<close> is
  none of \<open>p\<close>, \<open>./p\<close> and \<open>p\<close> without a leading \<open>./\<close> is rejected before any
  file is processed: the issue \<open>Invalid path format\<close> is among the issues, the run
  sends the one error event and changes nothing on disk. Where the path is not empty,
  not too long, has no \<open>..\<close> and is not absolute, this is its only issue.
\<close>

theorem schema_rejects_unnormalized:
  assumes "request_files body = Some files" and "f \<in> set files"
    and "\<not> path_format_ok (path f)"
  shows "''Invalid path format'' \<in> set (schema_issues (Some files)) \<and>
         apply_POST env fs (JsonBody body) =
           \<lparr>run_fs = fs,
            run_events = [Error (''Validation failed: '' @ join '', '' (schema_issues (Some files)))],
            run_closed = True\<rparr> \<and>
         (path f \<noteq> [] \<and> length (path f) \<le> 500 \<and> \<not> str_includes (path f) ''..'' \<and>
          \<not> isAbsolute (path f) \<longrightarrow> path_issues (path f) = [''Invalid path format''])"
proof -
  have m: "''Invalid path format'' \<in> set (schema_issues (Some files))"
    using assms(2,3) invalid_format_issue path_issues_in_schema by blast
  then have "schema_issues (request_files body) \<noteq> []"
    using assms(1) by auto
  then have "apply_POST env fs (JsonBody body) =
           \<lparr>run_fs = fs,
            run_events = [Error (''Validation failed: '' @ join '', '' (schema_issues (Some files)))],
            run_closed = True\<rparr>"
    using apply_POST_rejects [of body env fs] assms(1) by simp
  moreover have "path f \<noteq> [] \<and> length (path f) \<le> 500 \<and> \<not> str_includes (path f) ''..'' \<and>
          \<not> isAbsolute (path f) \<longrightarrow> path_issues (path f) = [''Invalid path format'']"
    using assms(3) by (auto simp: path_issues_def)
  ultimately show ?thesis using m by blast
qed

theorem schema_rejects_unnormalized_witness:
  "\<not> path_format_ok ''src//a.ts'' \<and>
   apply_POST plain_env Map.empty (JsonBody unnormalized_body) =
     \<lparr>run_fs = Map.empty, run_events = [Error ''Validation failed: Invalid path format''],
      run_closed = True\<rparr>"
proof -
  have a: "request_files unnormalized_body = Some [\<lparr>path = ''src//a.ts'', content = ''x''\<rparr>]"
    by (simp add: request_files_def unnormalized_body_def)
  have b: "\<not> path_format_ok ''src//a.ts''" by code_simp
  have c: "schema_issues (Some [\<lparr>path = ''src//a.ts'', content = ''x''\<rparr>]) = [''Invalid path format'']"
    by code_simp
  show ?thesis
    using a b c schema_rejects_unnormalized [of unnormalized_body
        "[\<lparr>path = ''src//a.ts'', content = ''x''\<rparr>]" "\<lparr>path = ''src//a.ts'', content = ''x''\<rparr>" plain_env Map.empty]
    by simp
qed

text \<open>
  Claim C3. A request whose file list is empty or longer than 100, or has a path that
  is empty, longer than 500, contains \<open>..\<close> or is absolute, is rejected as a whole:
  the run sends exactly one event, an error event, closes the channel, sends no
  per-file event, and leaves the file system as it was.
\<close>

theorem batch_rejected_before_processing:
  assumes "request_files body = Some files"
    and "length files = 0 \<or> length files > 100 \<or>
         (\<exists>f \<in> set files. path f = [] \<or> length (path f) > 500 \<or>
                           str_includes (path f) ''..'' \<or> isAbsolute (path f))"
  shows "apply_POST env fs (JsonBody body) =
           \<lparr>run_fs = fs,
            run_events = [Error (''Validation failed: '' @ join '', '' (schema_issues (Some files)))],
            run_closed = True\<rparr>"
proof -
  have "schema_issues (Some files) \<noteq> []"
  proof (rule disjE [OF assms(2)])
    assume "length files = 0"
    then show ?thesis by (simp add: schema_issues_def)
  next
    assume "length files > 100 \<or>
         (\<exists>f \<in> set files. path f = [] \<or> length (path f) > 500 \<or>
                           str_includes (path f) ''..'' \<or> isAbsolute (path f))"
    then show ?thesis
    proof
      assume "length files > 100"
      then show ?thesis by (simp add: schema_issues_def)
    next
      assume "\<exists>f \<in> set files. path f = [] \<or> length (path f) > 500 \<or>
                           str_includes (path f) ''..'' \<or> isAbsolute (path f)"
      then obtain f where f: "f \<in> set files"
        and bad: "path f = [] \<or> length (path f) > 500 \<or>
                           str_includes (path f) ''..'' \<or> isAbsolute (path f)" by blast
      from bad have "path_issues (path f) \<noteq> []"
        by (auto simp: path_issues_def)
      then show ?thesis using f path_issues_in_schema [of f files] by auto
    qed
  qed
  then show ?thesis using apply_POST_rejects [of body env fs] assms(1) by simp
qed

theorem batch_rejected_before_processing_witness:
  "apply_POST plain_env Map.empty (JsonBody traversal_body) =
     \<lparr>run_fs = Map.empty,
      run_events = [Error (''Validation failed: Path traversal detected: '' @ [CHR 0x22] @ ''..'' @
                           [CHR 0x22] @ '' not allowed'')],
      run_closed = True\<rparr> \<and>
   apply_POST plain_env Map.empty (JsonBody empty_body) =
     \<lparr>run_fs = Map.empty, run_events = [Error ''Validation failed: At least one file is required''],
      run_closed = True\<rparr>"
proof -
  have a: "request_files traversal_body = Some [\<lparr>path = ''../etc/passwd'', content = ''x''\<rparr>]"
    by (simp add: request_files_def traversal_body_def)
  have b: "str_includes ''../etc/passwd'' ''..''" by code_simp
  have c: "schema_issues (Some [\<lparr>path = ''../etc/passwd'', content = ''x''\<rparr>]) =
      [''Path traversal detected: '' @ [CHR 0x22] @ ''..'' @ [CHR 0x22] @ '' not allowed'']"
    by code_simp
  have d: "request_files empty_body = Some []"
    by (simp add: request_files_def empty_body_def)
  have e: "schema_issues (Some []) = [''At least one file is required'']"
    by (simp add: schema_issues_def)
  show ?thesis
    using a b c d e
      batch_rejected_before_processing [of traversal_body
        "[\<lparr>path = ''../etc/passwd'', content = ''x''\<rparr>]" plain_env Map.empty]
      batch_rejected_before_processing [of empty_body "[]" plain_env Map.empty]
    by simp
qed

text \<open>
  Claim C8 says that both package inferers leave out a specifier that begins with the
  local alias \<open>@/\<close>. The loop of the generation route has no such test: for a
  generated file that imports \<open>@/components/Button\<close> it reports the package
  \<open>@/components\<close>, where \<open>extractPackages\<close> of the apply route reports none for
  that import.
\<close>

theorem generation_route_keeps_alias_import:
  "gen_files alias_import_text =
     [\<lparr>path = ''src/App.tsx'',
       content = ''import '' @ [sq] @ ''@/components/Button'' @ [sq] @ ''; require('' @ [sq] @
                 ''lodash/fp'' @ [sq] @ '');''\<rparr>] \<and>
   packagesToInstall (gen_files alias_import_text) = [''@/components'', ''lodash''] \<and>
   extractPackages (gen_files alias_import_text) = [''lodash'']"
  by code_simp

subsection \<open>Merging the matches of the two grammars\<close>

lemma map_of_map_set: "map_of (map_set kvs k v) = (map_of kvs)(k \<mapsto> v)"
  by (induction kvs k v rule: map_set.induct) auto

lemma keys_map_set: "set (map fst (map_set kvs k v)) = insert k (set (map fst kvs))"
  by (induction kvs k v rule: map_set.induct) auto

lemma distinct_map_set: "distinct (map fst kvs) \<Longrightarrow> distinct (map fst (map_set kvs k v))"
proof (induction kvs k v rule: map_set.induct)
  case (1 k v)
  then show ?case by simp
next
  case (2 k' v' kvs k v)
  then show ?case using keys_map_set [of kvs k v] by auto
qed

lemma map_of_keep_longest:
  "map_of (keep_longest fm (p, c)) q =
     (if q = p \<and> (case map_of fm p of None \<Rightarrow> True | Some old \<Rightarrow> length old < length c)
      then Some c else map_of fm q)"
  by (auto simp: keep_longest_def map_of_map_set split: option.splits)

lemma distinct_keep_longest:
  "distinct (map fst fm) \<Longrightarrow> distinct (map fst (keep_longest fm m))"
  by (cases m) (simp add: keep_longest_def distinct_map_set)

lemma distinct_foldl_keep_longest:
  "distinct (map fst fm) \<Longrightarrow> distinct (map fst (foldl keep_longest fm ms))"
  by (induction ms arbitrary: fm) (simp_all add: distinct_keep_longest)

lemma longest_of_step:
  assumes "longest_of ms (map_of fm)"
  shows "longest_of (ms @ [m]) (map_of (keep_longest fm m))"
proof (cases m)
  case (Pair p c)
  show ?thesis
  proof (cases "map_of fm p")
    case None
    then have nomatch: "\<And>c'. (p, c') \<notin> set ms" using assms by (auto simp: longest_of_def)
    show ?thesis
      unfolding Pair longest_of_def map_of_keep_longest
      using assms None nomatch by (auto simp: longest_of_def)
  next
    case (Some old)
    then have mx: "\<And>c'. (p, c') \<in> set ms \<Longrightarrow> length c' \<le> length old"
      using assms by (auto simp: longest_of_def)
    show ?thesis
      unfolding Pair longest_of_def map_of_keep_longest
      using assms Some by (auto simp: longest_of_def dest: mx)
  qed
qed

lemma longest_of_foldl:
  "longest_of ms (map_of fm) \<Longrightarrow> longest_of (ms @ ns) (map_of (foldl keep_longest fm ns))"
proof (induction ns arbitrary: ms fm)
  case Nil
  then show ?case by simp
next
  case (Cons n ns)
  from Cons.IH [OF longest_of_step [OF Cons.prems, of n]] show ?case by simp
qed

lemma longest_of_merge: "longest_of ms (map_of (foldl keep_longest [] ms))"
  using longest_of_foldl [of "[]" "[]" ms] by (simp add: longest_of_def)

lemma longest_of_set: "set ms = set ns \<Longrightarrow> longest_of ms f \<Longrightarrow> longest_of ns f"
  by (simp add: longest_of_def)

lemma longest_of_agree:
  assumes "longest_of ms f" and "longest_of ms g"
    and "\<forall>c c'. (p, c) \<in> set ms \<and> (p, c') \<in> set ms \<and> length c = length c' \<longrightarrow> c = c'"
  shows "f p = g p"
proof (cases "f p")
  case None
  then have "\<And>c. (p, c) \<notin> set ms" using assms(1) by (auto simp: longest_of_def)
  then have "g p = None" using assms(2) by (cases "g p") (auto simp: longest_of_def)
  then show ?thesis using None by simp
next
  case (Some c)
  then have c: "(p, c) \<in> set ms" "\<And>c'. (p, c') \<in> set ms \<Longrightarrow> length c' \<le> length c"
    using assms(1) by (auto simp: longest_of_def)
  then obtain d where d: "g p = Some d" using assms(2) by (auto simp: longest_of_def)
  then have d2: "(p, d) \<in> set ms" "\<And>c'. (p, c') \<in> set ms \<Longrightarrow> length c' \<le> length d"
    using assms(2) by (auto simp: longest_of_def)
  have "length c = length d" using c(2) [OF d2(1)] d2(2) [OF c(1)] by simp
  then have "c = d" using assms(3) c(1) d2(1) by blast
  then show ?thesis using Some d by simp
qed

lemma first_longest_max:
  assumes "first_longest ms p c" and "(p, c') \<in> set ms"
  shows "length c' \<le> length c"
proof -
  from assms(1) obtain xs ys where d: "ms = xs @ (p, c) # ys"
    and b: "\<forall>c'. (p, c') \<in> set xs \<longrightarrow> length c' < length c"
    and a: "\<forall>c'. (p, c') \<in> set ys \<longrightarrow> length c' \<le> length c"
    unfolding first_longest_def by blast
  from assms(2) d have "(p, c') \<in> set xs \<or> c' = c \<or> (p, c') \<in> set ys" by auto
  then show ?thesis using a b by (auto simp: less_imp_le)
qed

lemma first_longest_step:
  assumes fl: "\<forall>p c. map_of fm p = Some c \<longrightarrow> first_longest ms p c"
    and keys: "\<forall>p c. (p, c) \<in> set ms \<longrightarrow> map_of fm p \<noteq> None"
    and kept: "map_of (keep_longest fm (q, d)) p = Some c"
  shows "first_longest (ms @ [(q, d)]) p c"
proof (cases "p = q \<and> (case map_of fm q of None \<Rightarrow> True | Some old \<Rightarrow> length old < length d)")
  case True
  then have c: "c = d" and pq: "p = q" using kept by (simp_all add: map_of_keep_longest)
  have "length c' < length d" if m: "(q, c') \<in> set ms" for c'
  proof (cases "map_of fm q")
    case None
    then show ?thesis using keys m by blast
  next
    case (Some old)
    then have "first_longest ms q old" using fl by blast
    then have "length c' \<le> length old" using m by (rule first_longest_max)
    moreover have "length old < length d" using True Some by simp
    ultimately show ?thesis by simp
  qed
  then have "ms @ [(q, d)] = ms @ (q, d) # [] \<and>
      (\<forall>c'. (q, c') \<in> set ms \<longrightarrow> length c' < length d) \<and>
      (\<forall>c'. (q, c') \<in> set [] \<longrightarrow> length c' \<le> length d)"
    by simp
  then show ?thesis unfolding first_longest_def c pq by blast
next
  case False
  then have old: "map_of fm p = Some c"
    using kept by (auto simp: map_of_keep_longest split: if_splits)
  then obtain xs ys where dec: "ms = xs @ (p, c) # ys"
    and b: "\<forall>c'. (p, c') \<in> set xs \<longrightarrow> length c' < length c"
    and a: "\<forall>c'. (p, c') \<in> set ys \<longrightarrow> length c' \<le> length c"
    using fl unfolding first_longest_def by blast
  have "length d \<le> length c" if "q = p"
    using False old that by auto
  then have "\<forall>c'. (p, c') \<in> set (ys @ [(q, d)]) \<longrightarrow> length c' \<le> length c"
    using a by auto
  moreover have "ms @ [(q, d)] = xs @ (p, c) # (ys @ [(q, d)])" using dec by simp
  ultimately show ?thesis unfolding first_longest_def using b by blast
qed

lemma first_longest_foldl:
  assumes "\<forall>p c. map_of fm p = Some c \<longrightarrow> first_longest ms p c"
    and "longest_of ms (map_of fm)"
  shows "\<forall>p c. map_of (foldl keep_longest fm ns) p = Some c \<longrightarrow> first_longest (ms @ ns) p c"
  using assms
proof (induction ns arbitrary: ms fm)
  case Nil
  then show ?case by simp
next
  case (Cons n ns)
  obtain q d where n: "n = (q, d)" by (cases n)
  have keys: "\<forall>p c. (p, c) \<in> set ms \<longrightarrow> map_of fm p \<noteq> None"
    using Cons.prems(2) by (simp add: longest_of_def)
  have s1: "\<forall>p c. map_of (keep_longest fm n) p = Some c \<longrightarrow> first_longest (ms @ [n]) p c"
    unfolding n using first_longest_step [OF Cons.prems(1) keys] by blast
  have s2: "longest_of (ms @ [n]) (map_of (keep_longest fm n))"
    by (rule longest_of_step [OF Cons.prems(2)])
  from Cons.IH [OF s1 s2] show ?case by simp
qed

lemma first_longest_merge:
  "map_of (foldl keep_longest [] ms) p = Some c \<Longrightarrow> first_longest ms p c"
proof -
  have a: "\<forall>p c. map_of [] p = Some c \<longrightarrow> first_longest [] p c" by simp
  have b: "longest_of [] (map_of [])" by (simp add: longest_of_def)
  from first_longest_foldl [OF a b, of ms] show "map_of (foldl keep_longest [] ms) p = Some c \<Longrightarrow> first_longest ms p c"
    by simp
qed

lemma parse_as_merge:
  "parseAIGeneratedCode code =
     map (\<lambda>(p, c). \<lparr>path = p, content = c\<rparr>)
       (merge_matches (file_tag_matches code @ markdown_matches code))"
  by (simp add: parseAIGeneratedCode_def merge_matches_def)

text \<open>
  Claim C5 says that the merged result does not depend on the order in which the two
  grammars are evaluated. For a text whose tagged block and fenced block give the same
  path contents of equal length, the route keeps the tagged content \<open>abc\<close>; the same
  merge with the fenced matches first keeps \<open>xyz\<close>.
\<close>

theorem merge_order_counterexample:
  "parseAIGeneratedCode tie_text = [\<lparr>path = ''src/x.ts'', content = ''abc''\<rparr>] \<and>
   merge_matches (file_tag_matches tie_text @ markdown_matches tie_text) = [(''src/x.ts'', ''abc'')] \<and>
   merge_matches (markdown_matches tie_text @ file_tag_matches tie_text) = [(''src/x.ts'', ''xyz'')]"
  by code_simp

text \<open>
  Claim C5, as amended. For every text, with \<open>ms\<close> the matches of the tagged grammar
  followed by those of the fenced grammar: the result has each matched path once, with
  a matched content of maximal length for it; a later match replaces the kept one only
  when strictly longer, so it is the first met among the contents of maximal length.
  For a path whose matched contents of equal length are equal, the merge keeps the same
  content when the fenced matches are merged first; so for contents of length 3 and 10
  the one of length 10 is kept in either order.
\<close>

theorem parse_keeps_longest:
  "distinct (map path (parseAIGeneratedCode code)) \<and>
   longest_of (file_tag_matches code @ markdown_matches code)
     (map_of (map (\<lambda>f. (path f, content f)) (parseAIGeneratedCode code))) \<and>
   (\<forall>c. map_of (map (\<lambda>f. (path f, content f)) (parseAIGeneratedCode code)) p = Some c \<longrightarrow>
        first_longest (file_tag_matches code @ markdown_matches code) p c) \<and>
   ((\<forall>c c'. (p, c) \<in> set (file_tag_matches code @ markdown_matches code) \<and>
             (p, c') \<in> set (file_tag_matches code @ markdown_matches code) \<and>
             length c = length c' \<longrightarrow> c = c') \<longrightarrow>
    map_of (merge_matches (markdown_matches code @ file_tag_matches code)) p =
    map_of (map (\<lambda>f. (path f, content f)) (parseAIGeneratedCode code)) p)"
proof -
  let ?ms = "file_tag_matches code @ markdown_matches code"
  let ?sw = "markdown_matches code @ file_tag_matches code"
  have pairs: "map (\<lambda>f. (path f, content f)) (parseAIGeneratedCode code) = merge_matches ?ms"
    by (simp add: parse_as_merge comp_def case_prod_beta)
  have keys: "map path (parseAIGeneratedCode code) = map fst (merge_matches ?ms)"
    by (simp add: parse_as_merge comp_def case_prod_beta)
  have d: "distinct (map path (parseAIGeneratedCode code))"
    unfolding keys merge_matches_def by (rule distinct_foldl_keep_longest) simp
  have l1: "longest_of ?ms (map_of (merge_matches ?ms))"
    unfolding merge_matches_def by (rule longest_of_merge)
  have "longest_of ?sw (map_of (merge_matches ?sw))"
    unfolding merge_matches_def by (rule longest_of_merge)
  then have l2: "longest_of ?ms (map_of (merge_matches ?sw))"
    by (rule longest_of_set [rotated]) auto
  have fst: "\<forall>c. map_of (merge_matches ?ms) p = Some c \<longrightarrow> first_longest ?ms p c"
    unfolding merge_matches_def using first_longest_merge by blast
  show ?thesis
    using d l1 fst longest_of_agree [OF l2 l1, of p] by (simp add: pairs)
qed

theorem parse_keeps_longest_witness:
  "parseAIGeneratedCode short_long_text = [\<lparr>path = ''src/x.ts'', content = ''0123456789''\<rparr>] \<and>
   file_tag_matches short_long_text @ markdown_matches short_long_text =
     [(''src/x.ts'', ''abc''), (''src/x.ts'', ''0123456789'')] \<and>
   map_of (merge_matches (markdown_matches short_long_text @ file_tag_matches short_long_text))
     ''src/x.ts'' = Some ''0123456789'' \<and>
   first_longest [(''src/x.ts'', ''abc''), (''src/x.ts'', ''0123456789'')] ''src/x.ts'' ''0123456789'' \<and>
   file_tag_matches tie_text @ markdown_matches tie_text =
     [(''src/x.ts'', ''abc''), (''src/x.ts'', ''xyz'')] \<and>
   first_longest [(''src/x.ts'', ''abc''), (''src/x.ts'', ''xyz'')] ''src/x.ts'' ''abc''"
proof -
  have p: "parseAIGeneratedCode short_long_text = [\<lparr>path = ''src/x.ts'', content = ''0123456789''\<rparr>]"
    by code_simp
  have m: "file_tag_matches short_long_text @ markdown_matches short_long_text =
     [(''src/x.ts'', ''abc''), (''src/x.ts'', ''0123456789'')]"
    by code_simp
  have h: "\<forall>c c'. (''src/x.ts'', c) \<in> set [(''src/x.ts'', ''abc''), (''src/x.ts'', ''0123456789'')] \<and>
             (''src/x.ts'', c') \<in> set [(''src/x.ts'', ''abc''), (''src/x.ts'', ''0123456789'')] \<and>
             length c = length c' \<longrightarrow> c = c'"
    by auto
  note t = parse_keeps_longest [of short_long_text "''src/x.ts''"]
  have prem: "\<forall>c c'. (''src/x.ts'', c) \<in> set (file_tag_matches short_long_text @ markdown_matches short_long_text) \<and>
             (''src/x.ts'', c') \<in> set (file_tag_matches short_long_text @ markdown_matches short_long_text) \<and>
             length c = length c' \<longrightarrow> c = c'"
    unfolding m by (rule h)
  have e: "map_of (merge_matches (markdown_matches short_long_text @ file_tag_matches short_long_text))
             ''src/x.ts'' =
           map_of (map (\<lambda>f. (path f, content f)) (parseAIGeneratedCode short_long_text)) ''src/x.ts''"
    by (rule mp [OF t [THEN conjunct2, THEN conjunct2, THEN conjunct2] prem])
  have k: "map_of (map (\<lambda>f. (path f, content f)) (parseAIGeneratedCode short_long_text)) ''src/x.ts'' =
      Some ''0123456789''"
    by (simp add: p)
  have f1: "first_longest (file_tag_matches short_long_text @ markdown_matches short_long_text)
      ''src/x.ts'' ''0123456789''"
    by (rule mp [OF spec [OF t [THEN conjunct2, THEN conjunct2, THEN conjunct1]] k])
  have p2: "parseAIGeneratedCode tie_text = [\<lparr>path = ''src/x.ts'', content = ''abc''\<rparr>]"
    by code_simp
  have m2: "file_tag_matches tie_text @ markdown_matches tie_text =
     [(''src/x.ts'', ''abc''), (''src/x.ts'', ''xyz'')]"
    by code_simp
  note t2 = parse_keeps_longest [of tie_text "''src/x.ts''"]
  have k2: "map_of (map (\<lambda>f. (path f, content f)) (parseAIGeneratedCode tie_text)) ''src/x.ts'' =
      Some ''abc''"
    by (simp add: p2)
  have f2: "first_longest (file_tag_matches tie_text @ markdown_matches tie_text) ''src/x.ts'' ''abc''"
    by (rule mp [OF spec [OF t2 [THEN conjunct2, THEN conjunct2, THEN conjunct1]] k2])
  show ?thesis
    using p m e f1 [unfolded m] m2 f2 [unfolded m2] by simp
qed

subsection \<open>The loop over the files of a batch\<close>



lemma apply_POST_valid:
  assumes "schema_issues (request_files body) = []" and "request_files body = Some files"
  shows "apply_POST env fs (JsonBody body) =
     (let st = process_files env (length files) 1 files
                 (start_state fs (request_packages body files) (length files))
      in \<lparr>run_fs = st_fs st,
          run_events = st_events st @ [Complete (complete_message (st_results st)) (st_results st)],
          run_closed = True\<rparr>)"
  using assms by (simp add: apply_POST_def Let_def)




lemma process_file_errors_grow:
  "\<exists>es. errors (st_results (process_file env n i f st)) = errors (st_results st) @ es"
  by (auto simp: process_file_def Let_def sendProgress_def push_error_def push_created_def
        push_updated_def file_catch_def
      split: path_check.splits sum.splits)

lemma process_files_errors_grow:
  "\<exists>es. errors (st_results (process_files env n i files st)) = errors (st_results st) @ es"
proof (induction files arbitrary: i st)
  case Nil
  then show ?case by simp
next
  case (Cons f files)
  obtain es1 where e1: "errors (st_results (process_file env n i f st)) = errors (st_results st) @ es1"
    using process_file_errors_grow by blast
  obtain es2 where "errors (st_results (process_files env n (Suc i) files (process_file env n i f st))) =
      errors (st_results (process_file env n i f st)) @ es2"
    using Cons.IH by blast
  then show ?case using e1 by simp
qed









subsection \<open>Applying a batch twice\<close>

lemma with_dirs_apply: "with_dirs fs ds q = (if q \<in> set ds then Some Dir else fs q)"
  by (induction ds) (auto simp: with_dirs_def map_add_def split: option.splits)

lemma node_cases: "fs q = None \<or> fs q = Some Dir \<or> is_file fs q"
  by (auto simp: is_file_def split: option.splits node.splits)

lemma sendProgress_fields:
  "st_fs (sendProgress ev st) = st_fs st"
  "st_results (sendProgress ev st) = st_results st"
  by (simp_all add: sendProgress_def)

lemma is_file_iff: "is_file fs q \<longleftrightarrow> (\<exists>c. fs q = Some (File c))"
  by (auto simp: is_file_def split: option.splits node.splits)

lemma fs_access_no_faults: "no_faults env \<Longrightarrow> fs_access env fs p = (fs p \<noteq> None)"
  by (simp add: fs_access_def no_faults_def)

lemma ensureDirectory_no_faults:
  "no_faults env \<Longrightarrow>
   ensureDirectory env fs (normalizeFilePath (path f)) =
     (if fs (dir_of env f) \<noteq> None then Inr fs
      else if list_ex (is_file fs) (ancestors (dir_of env f))
        then Inl (JsError ''EEXIST: file already exists, mkdir'')
        else Inr (with_dirs fs (ancestors (dir_of env f))))"
  by (simp add: ensureDirectory_def Let_def fs_access_no_faults fs_mkdir_def dir_of_def no_faults_def)

lemma writeFile_no_faults:
  "no_faults env \<Longrightarrow>
   writeFile env fs (normalizeFilePath (path f)) c =
     (if fs (target env f) = Some Dir
      then Inl (JsError ''EISDIR: illegal operation on a directory, open'')
      else Inr (fs(target env f \<mapsto> File c)))"
  by (simp add: writeFile_def fs_writeFile_def target_def no_faults_def)

lemma fileExists_no_faults:
  "no_faults env \<Longrightarrow> fileExists env fs (normalizeFilePath (path f)) = (fs (target env f) \<noteq> None)"
  by (simp add: fileExists_def fs_access_no_faults target_def)

lemma process_file_success:
  assumes nf: "no_faults env"
    and ne: "errors (st_results (process_file env n i f st)) = errors (st_results st)"
  shows "isPathSafe (projectRoot env) (normalizeFilePath (path f)) = Safe"
    and "\<exists>fs1. (fs1 = st_fs st \<and> st_fs st (dir_of env f) \<noteq> None \<or>
                fs1 = with_dirs (st_fs st) (ancestors (dir_of env f)) \<and>
                \<not> list_ex (is_file (st_fs st)) (ancestors (dir_of env f))) \<and>
               fs1 (target env f) \<noteq> Some Dir \<and>
               st_fs (process_file env n i f st) = fs1(target env f \<mapsto> File (content f))"
    and "filesCreated (st_results (process_file env n i f st)) =
           filesCreated (st_results st) @
           (if st_fs st (target env f) = None then [normalizeFilePath (path f)] else [])"
    and "filesUpdated (st_results (process_file env n i f st)) =
           filesUpdated (st_results st) @
           (if st_fs st (target env f) = None then [] else [normalizeFilePath (path f)])"
proof -
  show safe: "isPathSafe (projectRoot env) (normalizeFilePath (path f)) = Safe"
    using ne
    by (cases "isPathSafe (projectRoot env) (normalizeFilePath (path f))")
       (simp_all add: process_file_def Let_def sendProgress_def push_error_def)
  have pf: "process_file env n i f st =
      (let normalizedPath = normalizeFilePath (path f);
           st1 = sendProgress (FileProgress i n normalizedPath ''validating'') st;
           exists = (st_fs st (target env f) \<noteq> None);
           st2 = sendProgress (FileProgress i n normalizedPath
                     (if exists then ''updating'' else ''creating'')) st1
       in (case ensureDirectory env (st_fs st) normalizedPath of
             Inl e \<Rightarrow> file_catch f e st2
           | Inr fs1 \<Rightarrow>
               (case writeFile env fs1 normalizedPath (content f) of
                  Inl e \<Rightarrow> file_catch f e (st2\<lparr>st_fs := fs1\<rparr>)
                | Inr fs2 \<Rightarrow>
                    sendProgress (FileComplete normalizedPath (if exists then ''updated'' else ''created''))
                      ((if exists then push_updated normalizedPath else push_created normalizedPath)
                         (st2\<lparr>st_fs := fs2\<rparr>)))))"
    using safe nf
    by (simp add: process_file_def Let_def fileExists_no_faults sanitizeContent_def sendProgress_fields)
  obtain fs1 where ed: "ensureDirectory env (st_fs st) (normalizeFilePath (path f)) = Inr fs1"
    using ne
    by (cases "ensureDirectory env (st_fs st) (normalizeFilePath (path f))")
       (simp_all add: pf Let_def file_catch_def sendProgress_def push_error_def)
  obtain fs2 where wf: "writeFile env fs1 (normalizeFilePath (path f)) (content f) = Inr fs2"
    using ne ed
    by (cases "writeFile env fs1 (normalizeFilePath (path f)) (content f)")
       (simp_all add: pf Let_def file_catch_def sendProgress_def push_error_def)
  have fs1: "fs1 = st_fs st \<and> st_fs st (dir_of env f) \<noteq> None \<or>
                fs1 = with_dirs (st_fs st) (ancestors (dir_of env f)) \<and>
                \<not> list_ex (is_file (st_fs st)) (ancestors (dir_of env f))"
    using ed by (auto simp: ensureDirectory_no_faults [OF nf] split: if_splits)
  have fs2: "fs1 (target env f) \<noteq> Some Dir \<and> fs2 = fs1(target env f \<mapsto> File (content f))"
    using wf by (auto simp: writeFile_no_faults [OF nf] split: if_splits)
  have res: "st_fs (process_file env n i f st) = fs2"
    using ed wf by (simp add: pf Let_def sendProgress_def push_updated_def push_created_def)
  show "\<exists>fs1. (fs1 = st_fs st \<and> st_fs st (dir_of env f) \<noteq> None \<or>
                fs1 = with_dirs (st_fs st) (ancestors (dir_of env f)) \<and>
                \<not> list_ex (is_file (st_fs st)) (ancestors (dir_of env f))) \<and>
               fs1 (target env f) \<noteq> Some Dir \<and>
               st_fs (process_file env n i f st) = fs1(target env f \<mapsto> File (content f))"
    using fs1 fs2 res by blast
  show "filesCreated (st_results (process_file env n i f st)) =
           filesCreated (st_results st) @
           (if st_fs st (target env f) = None then [normalizeFilePath (path f)] else [])"
    using ed wf by (simp add: pf Let_def sendProgress_def push_updated_def push_created_def)
  show "filesUpdated (st_results (process_file env n i f st)) =
           filesUpdated (st_results st) @
           (if st_fs st (target env f) = None then [] else [normalizeFilePath (path f)])"
    using ed wf by (simp add: pf Let_def sendProgress_def push_updated_def push_created_def)
qed


lemma step_effect:
  assumes nf: "no_faults env"
    and ne: "errors (st_results (process_file env n i f st)) = errors (st_results st)"
  shows "st_fs (process_file env n i f st) (target env f) = Some (File (content f))"
    and "\<And>q. q \<noteq> target env f \<Longrightarrow> st_fs st q \<noteq> None \<Longrightarrow>
           st_fs (process_file env n i f st) q = st_fs st q"
    and "\<And>q. q \<noteq> target env f \<Longrightarrow> st_fs st q = None \<Longrightarrow>
           st_fs (process_file env n i f st) q = None \<or>
           st_fs (process_file env n i f st) q = Some Dir"
    and "st_fs st (target env f) \<noteq> Some Dir"
    and "dir_ready (st_fs (process_file env n i f st)) (dir_of env f)"
proof -
  obtain fs1 where fs1: "fs1 = st_fs st \<and> st_fs st (dir_of env f) \<noteq> None \<or>
                fs1 = with_dirs (st_fs st) (ancestors (dir_of env f)) \<and>
                \<not> list_ex (is_file (st_fs st)) (ancestors (dir_of env f))"
    and nd: "fs1 (target env f) \<noteq> Some Dir"
    and res: "st_fs (process_file env n i f st) = fs1(target env f \<mapsto> File (content f))"
    using process_file_success(2) [OF nf ne] by blast
  have keep: "fs1 q = st_fs st q" if "st_fs st q \<noteq> None" for q
  proof (rule disjE [OF fs1])
    assume "fs1 = st_fs st \<and> st_fs st (dir_of env f) \<noteq> None"
    then show ?thesis by simp
  next
    assume a: "fs1 = with_dirs (st_fs st) (ancestors (dir_of env f)) \<and>
                \<not> list_ex (is_file (st_fs st)) (ancestors (dir_of env f))"
    show ?thesis
    proof (cases "q \<in> set (ancestors (dir_of env f))")
      case True
      then have "\<not> is_file (st_fs st) q" using a by (auto simp: list_ex_iff)
      then have "st_fs st q = Some Dir" using that node_cases [of "st_fs st" q] by auto
      then show ?thesis using a True by (simp add: with_dirs_apply)
    next
      case False
      then show ?thesis using a by (simp add: with_dirs_apply)
    qed
  qed
  have fresh: "fs1 q = None \<or> fs1 q = Some Dir" if "st_fs st q = None" for q
    using fs1 that by (auto simp: with_dirs_apply)
  show "st_fs (process_file env n i f st) (target env f) = Some (File (content f))"
    by (simp add: res)
  show "\<And>q. q \<noteq> target env f \<Longrightarrow> st_fs st q \<noteq> None \<Longrightarrow>
           st_fs (process_file env n i f st) q = st_fs st q"
    by (simp add: res keep)
  show "\<And>q. q \<noteq> target env f \<Longrightarrow> st_fs st q = None \<Longrightarrow>
           st_fs (process_file env n i f st) q = None \<or>
           st_fs (process_file env n i f st) q = Some Dir"
    using fresh by (simp add: res)
  show "st_fs st (target env f) \<noteq> Some Dir"
    using keep [of "target env f"] nd by auto
  show "dir_ready (st_fs (process_file env n i f st)) (dir_of env f)"
  proof (rule disjE [OF fs1])
    assume "fs1 = st_fs st \<and> st_fs st (dir_of env f) \<noteq> None"
    then show ?thesis by (auto simp: dir_ready_def res)
  next
    assume a: "fs1 = with_dirs (st_fs st) (ancestors (dir_of env f)) \<and>
                \<not> list_ex (is_file (st_fs st)) (ancestors (dir_of env f))"
    then have "target env f \<notin> set (ancestors (dir_of env f))"
      using nd by (auto simp: with_dirs_apply)
    then have "\<forall>a \<in> set (ancestors (dir_of env f)).
        (fs1(target env f \<mapsto> File (content f))) a = Some Dir"
      using a by (auto simp: with_dirs_apply)
    then show ?thesis by (simp add: dir_ready_def res)
  qed
qed

lemma written_snoc:
  "written env (xs @ [f]) = (written env xs)(target env f \<mapsto> File (content f))"
  by (simp add: written_def)

lemma written_is_file: "written env xs q = Some v \<Longrightarrow> \<exists>c. v = File c"
  by (auto simp: written_def dest!: map_of_SomeD)

lemma written_dom: "written env xs q \<noteq> None \<longleftrightarrow> q \<in> target env ` set xs"
  by (auto simp: written_def map_of_eq_None_iff image_iff)


lemma first_run_step:
  assumes nf: "no_faults env"
    and inv: "first_run_inv env fs0 prev st"
    and ne: "errors (st_results (process_file env n i f st)) = errors (st_results st)"
    and fresh: "fs0 (target env f) = None"
    and samet: "\<forall>g \<in> set prev. target env g = target env f \<longrightarrow>
                  normalizeFilePath (path g) = normalizeFilePath (path f)"
  shows "first_run_inv env fs0 (prev @ [f]) (process_file env n i f st)"
proof -
  let ?st' = "process_file env n i f st"
  let ?T = "target env f"
  note eff = step_effect [OF nf ne]
  note suc = process_file_success [OF nf ne]
  from inv have i1: "\<And>q. is_file (st_fs st) q \<Longrightarrow> is_file fs0 q \<or> q \<in> target env ` set prev"
    and i2: "\<And>g. g \<in> set prev \<Longrightarrow> normalizeFilePath (path g) \<in> set (filesCreated (st_results st))"
    and i3: "set (filesCreated (st_results st)) \<subseteq> (\<lambda>g. normalizeFilePath (path g)) ` set prev"
    and i4: "\<And>q v. written env prev q = Some v \<Longrightarrow> st_fs st q = Some v"
    and i5: "\<And>g. g \<in> set prev \<Longrightarrow> dir_ready (st_fs st) (dir_of env g)"
    and i6: "\<And>g. g \<in> set prev \<Longrightarrow> isPathSafe (projectRoot env) (normalizeFilePath (path g)) = Safe"
    by (auto simp: first_run_inv_def)
  have c1: "is_file fs0 q \<or> q \<in> target env ` set (prev @ [f])" if "is_file (st_fs ?st') q" for q
  proof (cases "q = ?T")
    case True
    then show ?thesis by simp
  next
    case False
    show ?thesis
    proof (cases "st_fs st q = None")
      case True
      then have "\<not> is_file (st_fs ?st') q"
        using eff(3) [OF False True] by (auto simp: is_file_def)
      then show ?thesis using that by simp
    next
      case F2: False
      then have "st_fs ?st' q = st_fs st q" using eff(2) [OF False] by simp
      then have "is_file (st_fs st) q" using that by (simp add: is_file_def)
      then show ?thesis using i1 by auto
    qed
  qed
  have c2f: "normalizeFilePath (path f) \<in> set (filesCreated (st_results ?st'))"
  proof (cases "st_fs st ?T = None")
    case True
    then show ?thesis by (simp add: suc(3))
  next
    case False
    then have "is_file (st_fs st) ?T"
      using eff(4) node_cases [of "st_fs st" ?T] by auto
    then have "is_file fs0 ?T \<or> ?T \<in> target env ` set prev" by (rule i1)
    moreover have "\<not> is_file fs0 ?T" using fresh by (simp add: is_file_def)
    ultimately obtain g where g: "g \<in> set prev" "target env g = ?T" by auto
    then have "normalizeFilePath (path g) = normalizeFilePath (path f)" using samet by blast
    then show ?thesis using i2 [OF g(1)] by (simp add: suc(3))
  qed
  have c2: "normalizeFilePath (path g) \<in> set (filesCreated (st_results ?st'))"
    if "g \<in> set (prev @ [f])" for g
    using that c2f i2 by (auto simp: suc(3))
  have c3: "set (filesCreated (st_results ?st')) \<subseteq>
      (\<lambda>g. normalizeFilePath (path g)) ` set (prev @ [f])"
    using i3 by (auto simp: suc(3))
  have c4: "st_fs ?st' q = Some v" if "written env (prev @ [f]) q = Some v" for q v
  proof (cases "q = ?T")
    case True
    then show ?thesis using that eff(1) by (simp add: written_snoc)
  next
    case False
    then have "written env prev q = Some v" using that by (simp add: written_snoc)
    then have "st_fs st q = Some v" by (rule i4)
    then show ?thesis using eff(2) [OF False] by simp
  qed
  have c5: "dir_ready (st_fs ?st') (dir_of env g)" if "g \<in> set (prev @ [f])" for g
  proof (cases "g = f")
    case True
    then show ?thesis using eff(5) by simp
  next
    case False
    then have "g \<in> set prev" using that by simp
    then have r: "dir_ready (st_fs st) (dir_of env g)" by (rule i5)
    have pres: "st_fs ?st' q \<noteq> None" if "st_fs st q \<noteq> None" for q
      using eff(1) eff(2) [of q] that by (cases "q = ?T") auto
    have dirs: "st_fs ?st' a = Some Dir" if "st_fs st a = Some Dir" for a
    proof -
      have "a \<noteq> ?T" using eff(4) that by auto
      then show ?thesis using eff(2) [of a] that by simp
    qed
    show ?thesis using r pres dirs by (auto simp: dir_ready_def)
  qed
  have c6: "isPathSafe (projectRoot env) (normalizeFilePath (path g)) = Safe"
    if "g \<in> set (prev @ [f])" for g
    using that i6 suc(1) by auto
  show ?thesis
    unfolding first_run_inv_def using c1 c2 c3 c4 c5 c6 by blast
qed

lemma first_run_files:
  assumes nf: "no_faults env"
    and inv: "first_run_inv env fs0 prev st"
    and ne: "errors (st_results (process_files env n i files st)) = errors (st_results st)"
    and fresh: "\<forall>f \<in> set files. fs0 (target env f) = None"
    and samet: "\<forall>f \<in> set (prev @ files). \<forall>g \<in> set (prev @ files).
                  target env g = target env f \<longrightarrow>
                  normalizeFilePath (path g) = normalizeFilePath (path f)"
  shows "first_run_inv env fs0 (prev @ files) (process_files env n i files st)"
  using inv ne fresh samet
proof (induction files arbitrary: prev st i)
  case Nil
  then show ?case by simp
next
  case (Cons f files)
  obtain es1 where e1: "errors (st_results (process_file env n i f st)) = errors (st_results st) @ es1"
    using process_file_errors_grow by blast
  obtain es2 where e2: "errors (st_results (process_files env n (Suc i) files (process_file env n i f st))) =
      errors (st_results (process_file env n i f st)) @ es2"
    using process_files_errors_grow by blast
  from Cons.prems(2) e1 e2 have "es1 = []" "es2 = []" by simp_all
  then have ne1: "errors (st_results (process_file env n i f st)) = errors (st_results st)"
    and ne2: "errors (st_results (process_files env n (Suc i) files (process_file env n i f st))) =
      errors (st_results (process_file env n i f st))"
    using e1 e2 by simp_all
  have inv1: "first_run_inv env fs0 (prev @ [f]) (process_file env n i f st)"
    using first_run_step [OF nf Cons.prems(1) ne1] Cons.prems(3,4) by simp
  have "first_run_inv env fs0 ((prev @ [f]) @ files)
      (process_files env n (Suc i) files (process_file env n i f st))"
  proof (rule Cons.IH [OF inv1 ne2])
    show "\<forall>f \<in> set files. fs0 (target env f) = None"
      using Cons.prems(3) by simp
    have "set ((prev @ [f]) @ files) = set (prev @ f # files)" by simp
    then show "\<forall>x \<in> set ((prev @ [f]) @ files). \<forall>g \<in> set ((prev @ [f]) @ files).
                  target env g = target env x \<longrightarrow>
                  normalizeFilePath (path g) = normalizeFilePath (path x)"
      using Cons.prems(4) by (simp only:)
  qed
  then show ?case by simp
qed


lemma ensureDirectory_ready:
  assumes nf: "no_faults env" and r: "dir_ready fs (dir_of env f)"
  shows "ensureDirectory env fs (normalizeFilePath (path f)) = Inr fs"
proof (cases "fs (dir_of env f) \<noteq> None")
  case True
  then show ?thesis by (simp add: ensureDirectory_no_faults [OF nf])
next
  case False
  then have d: "\<forall>a \<in> set (ancestors (dir_of env f)). fs a = Some Dir"
    using r by (auto simp: dir_ready_def)
  then have "\<not> list_ex (is_file fs) (ancestors (dir_of env f))"
    by (auto simp: list_ex_iff is_file_def)
  moreover have "with_dirs fs (ancestors (dir_of env f)) = fs"
    using d by (auto simp: with_dirs_apply fun_eq_iff)
  ultimately show ?thesis using False by (simp add: ensureDirectory_no_faults [OF nf])
qed

lemma second_run_step:
  assumes nf: "no_faults env"
    and safe: "isPathSafe (projectRoot env) (normalizeFilePath (path f)) = Safe"
    and ready: "dir_ready (st_fs st) (dir_of env f)"
    and isf: "is_file (st_fs st) (target env f)"
  shows "st_fs (process_file env n i f st) = (st_fs st)(target env f \<mapsto> File (content f))"
    and "errors (st_results (process_file env n i f st)) = errors (st_results st)"
    and "filesCreated (st_results (process_file env n i f st)) = filesCreated (st_results st)"
    and "filesUpdated (st_results (process_file env n i f st)) =
           filesUpdated (st_results st) @ [normalizeFilePath (path f)]"
proof -
  from isf have ex: "st_fs st (target env f) \<noteq> None" "st_fs st (target env f) \<noteq> Some Dir"
    by (auto simp: is_file_iff)
  have pf: "process_file env n i f st =
      sendProgress (FileComplete (normalizeFilePath (path f)) ''updated'')
        (push_updated (normalizeFilePath (path f))
           ((sendProgress (FileProgress i n (normalizeFilePath (path f)) ''updating'')
              (sendProgress (FileProgress i n (normalizeFilePath (path f)) ''validating'') st))
            \<lparr>st_fs := (st_fs st)(target env f \<mapsto> File (content f))\<rparr>))"
    using safe ex
    by (simp add: process_file_def Let_def fileExists_no_faults [OF nf] sanitizeContent_def
        sendProgress_fields ensureDirectory_ready [OF nf ready] writeFile_no_faults [OF nf])
  show "st_fs (process_file env n i f st) = (st_fs st)(target env f \<mapsto> File (content f))"
    and "errors (st_results (process_file env n i f st)) = errors (st_results st)"
    and "filesCreated (st_results (process_file env n i f st)) = filesCreated (st_results st)"
    and "filesUpdated (st_results (process_file env n i f st)) =
           filesUpdated (st_results st) @ [normalizeFilePath (path f)]"
    by (simp_all add: pf sendProgress_def push_updated_def)
qed

lemma overlay_props:
  assumes a1: "\<forall>q v. written env every q = Some v \<longrightarrow> fs1 q = Some v"
    and sub: "set prev \<subseteq> set every"
  shows "\<And>q. fs1 q \<noteq> None \<Longrightarrow> (fs1 ++ written env prev) q \<noteq> None"
    and "\<And>q. fs1 q = Some Dir \<Longrightarrow> (fs1 ++ written env prev) q = Some Dir"
    and "\<And>f. f \<in> set every \<Longrightarrow> is_file (fs1 ++ written env prev) (target env f)"
proof -
  show "\<And>q. fs1 q \<noteq> None \<Longrightarrow> (fs1 ++ written env prev) q \<noteq> None"
    by (auto simp: map_add_def split: option.splits)
  show "(fs1 ++ written env prev) q = Some Dir" if d: "fs1 q = Some Dir" for q
  proof (cases "written env prev q")
    case None
    then show ?thesis using d by (simp add: map_add_def)
  next
    case (Some v)
    then have "q \<in> target env ` set prev" using written_dom [of env prev q] by simp
    then have "q \<in> target env ` set every" using sub by auto
    then obtain v' where v': "written env every q = Some v'"
      using written_dom [of env every q] by auto
    then have "fs1 q = Some v'" using a1 by blast
    moreover obtain c where "v' = File c" using written_is_file [OF v'] by blast
    ultimately show ?thesis using d by simp
  qed
  show "is_file (fs1 ++ written env prev) (target env f)" if f: "f \<in> set every" for f
  proof (cases "written env prev (target env f)")
    case None
    obtain v' where v': "written env every (target env f) = Some v'"
      using written_dom [of env every "target env f"] f by auto
    then have "fs1 (target env f) = Some v'" using a1 by blast
    moreover obtain c where "v' = File c" using written_is_file [OF v'] by blast
    ultimately show ?thesis using None by (simp add: map_add_def is_file_iff)
  next
    case (Some v)
    then obtain c where "v = File c" using written_is_file by blast
    then show ?thesis using Some by (simp add: map_add_def is_file_iff)
  qed
qed

lemma second_run_files:
  assumes nf: "no_faults env"
    and a1: "\<forall>q v. written env every q = Some v \<longrightarrow> fs1 q = Some v"
    and a2: "\<forall>g \<in> set every. dir_ready fs1 (dir_of env g)"
    and a3: "\<forall>g \<in> set every. isPathSafe (projectRoot env) (normalizeFilePath (path g)) = Safe"
    and sub: "set prev \<union> set files \<subseteq> set every"
    and st: "st_fs st = fs1 ++ written env prev"
  shows "st_fs (process_files env n i files st) = fs1 ++ written env (prev @ files) \<and>
         errors (st_results (process_files env n i files st)) = errors (st_results st) \<and>
         filesCreated (st_results (process_files env n i files st)) = filesCreated (st_results st) \<and>
         filesUpdated (st_results (process_files env n i files st)) =
           filesUpdated (st_results st) @ map (\<lambda>g. normalizeFilePath (path g)) files"
  using sub st
proof (induction files arbitrary: prev st i)
  case Nil
  then show ?case by simp
next
  case (Cons f files)
  have fin: "f \<in> set every" and psub: "set prev \<subseteq> set every" using Cons.prems(1) by auto
  note ov = overlay_props [OF a1 psub]
  have isf: "is_file (st_fs st) (target env f)"
    using ov(3) [OF fin] by (simp add: Cons.prems(2))
  have ready: "dir_ready (st_fs st) (dir_of env f)"
    using a2 fin ov(1) ov(2) by (auto simp: dir_ready_def Cons.prems(2))
  have safe: "isPathSafe (projectRoot env) (normalizeFilePath (path f)) = Safe"
    using a3 fin by blast
  note step = second_run_step [OF nf safe ready isf, of n i]
  have st': "st_fs (process_file env n i f st) = fs1 ++ written env (prev @ [f])"
    by (simp add: step(1) Cons.prems(2) written_snoc)
  have sub': "set (prev @ [f]) \<union> set files \<subseteq> set every" using Cons.prems(1) by auto
  from Cons.IH [OF sub' st', of "Suc i"] show ?case
    by (simp add: step)
qed


lemma final_results_valid:
  assumes "schema_issues (request_files body) = []" and "request_files body = Some files"
  shows "final_results (apply_POST env fs (JsonBody body)) =
           Some (st_results (process_files env (length files) 1 files
                   (start_state fs (request_packages body files) (length files))))"
    and "run_fs (apply_POST env fs (JsonBody body)) =
           st_fs (process_files env (length files) 1 files
                   (start_state fs (request_packages body files) (length files)))"
  using apply_POST_valid [OF assms, of env fs] by (simp_all add: final_results_def Let_def)

text \<open>
  Claim C6 says that the first of two runs of a batch reports every path as created.
  The existence check decides the label: on a project that already has
  \<open>src/a.txt\<close>, the first run of a batch with that file reports it as updated.
\<close>

theorem apply_twice_counterexample:
  "final_results (apply_POST plain_env existing_fs (JsonBody one_file_body)) =
     Some \<lparr>filesCreated = [], filesUpdated = [''src/a.txt''], filesSkipped = [], errors = [],
           packages = []\<rparr>"
  by code_simp

text \<open>
  Claim C6, as amended. Take a validated batch, a file system whose calls do not fail
  for outside reasons and that has nothing at the targets of the batch, with no two
  different paths of the batch naming the same target, and a first run that reports no
  error. Then the first run reports every path of the batch in \<open>filesCreated\<close>. The
  second run, from the file system the first has left, reports no error, nothing in
  \<open>filesCreated\<close> and the paths of the batch, in order, in \<open>filesUpdated\<close>; and it
  leaves the file system as the first run left it.
\<close>

theorem apply_twice:
  assumes "schema_issues (request_files body) = []" and "request_files body = Some files"
    and "no_faults env"
    and "\<forall>f \<in> set files. fs0 (target env f) = None"
    and "\<forall>f \<in> set files. \<forall>g \<in> set files.
           target env g = target env f \<longrightarrow>
           normalizeFilePath (path g) = normalizeFilePath (path f)"
    and "final_results (apply_POST env fs0 (JsonBody body)) = Some r1" and "errors r1 = []"
  shows "set (filesCreated r1) = (\<lambda>f. normalizeFilePath (path f)) ` set files \<and>
         (\<exists>r2. final_results (apply_POST env (run_fs (apply_POST env fs0 (JsonBody body)))
                                (JsonBody body)) = Some r2 \<and>
               errors r2 = [] \<and> filesCreated r2 = [] \<and>
               filesUpdated r2 = map (\<lambda>f. normalizeFilePath (path f)) files) \<and>
         run_fs (apply_POST env (run_fs (apply_POST env fs0 (JsonBody body))) (JsonBody body)) =
           run_fs (apply_POST env fs0 (JsonBody body))"
proof -
  define n where "n = length files"
  define pk where "pk = request_packages body files"
  define s1 where "s1 = process_files env n 1 files (start_state fs0 pk n)"
  define fs1 where "fs1 = st_fs s1"
  define s2 where "s2 = process_files env n 1 files (start_state fs1 pk n)"
  note v = assms(1,2)
  have r1: "r1 = st_results s1"
    using final_results_valid(1) [OF v, of env fs0] assms(6)
    by (simp add: s1_def n_def pk_def)
  have run1: "run_fs (apply_POST env fs0 (JsonBody body)) = fs1"
    using final_results_valid(2) [OF v, of env fs0] by (simp add: fs1_def s1_def n_def pk_def)
  have fr2: "final_results (apply_POST env fs1 (JsonBody body)) = Some (st_results s2)"
    using final_results_valid(1) [OF v, of env fs1] by (simp add: s2_def n_def pk_def)
  have run2: "run_fs (apply_POST env fs1 (JsonBody body)) = st_fs s2"
    using final_results_valid(2) [OF v, of env fs1] by (simp add: s2_def n_def pk_def)
  have inv0: "first_run_inv env fs0 [] (start_state fs0 pk n)"
    by (simp add: first_run_inv_def start_state_def written_def)
  have ne: "errors (st_results (process_files env n 1 files (start_state fs0 pk n))) =
      errors (st_results (start_state fs0 pk n))"
    using assms(7) r1 by (simp add: s1_def start_state_def)
  have sam: "\<forall>f \<in> set ([] @ files). \<forall>g \<in> set ([] @ files).
           target env g = target env f \<longrightarrow>
           normalizeFilePath (path g) = normalizeFilePath (path f)"
    using assms(5) by (simp only: append_Nil)
  have inv: "first_run_inv env fs0 files s1"
    using first_run_files [OF assms(3) inv0 ne assms(4) sam] by (simp add: s1_def)
  then have created: "set (filesCreated (st_results s1)) = (\<lambda>f. normalizeFilePath (path f)) ` set files"
    and a1: "\<forall>q v. written env files q = Some v \<longrightarrow> fs1 q = Some v"
    and a2: "\<forall>g \<in> set files. dir_ready fs1 (dir_of env g)"
    and a3: "\<forall>g \<in> set files. isPathSafe (projectRoot env) (normalizeFilePath (path g)) = Safe"
    unfolding first_run_inv_def fs1_def by blast+
  have st0: "st_fs (start_state fs1 pk n) = fs1 ++ written env []"
    by (simp add: start_state_def written_def)
  have sub: "set [] \<union> set files \<subseteq> set files" by simp
  from second_run_files [OF assms(3) a1 a2 a3 sub st0, of n 1]
  have second: "st_fs s2 = fs1 ++ written env files"
    "errors (st_results s2) = []" "filesCreated (st_results s2) = []"
    "filesUpdated (st_results s2) = map (\<lambda>g. normalizeFilePath (path g)) files"
    by (simp_all add: s2_def start_state_def)
  have same: "fs1 ++ written env files = fs1"
  proof
    fix q
    show "(fs1 ++ written env files) q = fs1 q"
      using a1 by (cases "written env files q") (auto simp: map_add_def)
  qed
  show ?thesis
    using created second same by (simp add: r1 run1 fr2 run2)
qed

theorem apply_twice_witness:
  "final_results (apply_POST plain_env Map.empty (JsonBody two_files_body)) =
     Some \<lparr>filesCreated = [''src/a.txt'', ''lib/c.ts''], filesUpdated = [], filesSkipped = [],
           errors = [], packages = []\<rparr> \<and>
   (\<exists>r2. final_results (apply_POST plain_env (run_fs (apply_POST plain_env Map.empty (JsonBody two_files_body)))
                          (JsonBody two_files_body)) = Some r2 \<and>
         errors r2 = [] \<and> filesCreated r2 = [] \<and>
         filesUpdated r2 = [''src/a.txt'', ''lib/c.ts'']) \<and>
   run_fs (apply_POST plain_env (run_fs (apply_POST plain_env Map.empty (JsonBody two_files_body)))
             (JsonBody two_files_body)) =
     run_fs (apply_POST plain_env Map.empty (JsonBody two_files_body))"
proof -
  have v: "schema_issues (request_files two_files_body) = []"
    by code_simp
  have r: "request_files two_files_body = Some two_files"
    by (simp add: request_files_def two_files_body_def)
  have nf: "no_faults plain_env"
    by (simp add: no_faults_def plain_env_def)
  have fresh: "\<forall>f \<in> set two_files. Map.empty (target plain_env f) = None"
    by simp
  have t: "target plain_env \<lparr>path = ''src/a.txt'', content = ''hi''\<rparr> = ''/app/src/a.txt''"
    "target plain_env \<lparr>path = ''lib/c.ts'', content = ''export {}''\<rparr> = ''/app/lib/c.ts''"
    by code_simp+
  have np: "normalizeFilePath ''src/a.txt'' = ''src/a.txt''" "normalizeFilePath ''lib/c.ts'' = ''lib/c.ts''"
    by code_simp+
  have sam: "\<forall>f \<in> set two_files. \<forall>g \<in> set two_files.
           target plain_env g = target plain_env f \<longrightarrow>
           normalizeFilePath (path g) = normalizeFilePath (path f)"
    by (simp add: two_files_def t)
  have f1: "final_results (apply_POST plain_env Map.empty (JsonBody two_files_body)) =
     Some \<lparr>filesCreated = [''src/a.txt'', ''lib/c.ts''], filesUpdated = [], filesSkipped = [],
           errors = [], packages = []\<rparr>"
    by code_simp
  have e: "errors \<lparr>filesCreated = [''src/a.txt'', ''lib/c.ts''], filesUpdated = [], filesSkipped = [],
           errors = [], packages = []\<rparr> = []"
    by simp
  from apply_twice [OF v r nf fresh sam f1 e] show ?thesis
    using f1 by (simp add: two_files_def np)
qed

end
